theory Spec2Isabelle
  imports Main "HOL-Library.Multiset" "HOL-Library.Monad_Syntax"
begin

section \<open>Python lists and strings\<close>

text \<open>
  The engines work on a Python list through integer indices. An index is a Python
  \<open>int\<close>: a negative index counts from the end, and an index outside the list raises
  \<open>IndexError\<close>. \<open>IndexError\<close> is the only exception the engines can raise, so a
  computation that may raise returns an \<open>option\<close>, \<open>None\<close> being the exception.
\<close>

definition py_index :: "'a list \<Rightarrow> int \<Rightarrow> nat option" where
  "py_index xs i =
     (let n = int (length xs); j = (if i < 0 then i + n else i)
      in if 0 \<le> j \<and> j < n then Some (nat j) else None)"

text \<open>\<open>xs[i]\<close>\<close>

definition py_get :: "'a list \<Rightarrow> int \<Rightarrow> 'a option" where
  "py_get xs i = (case py_index xs i of None \<Rightarrow> None | Some k \<Rightarrow> Some (xs ! k))"

text \<open>\<open>xs[i] = v\<close>\<close>

definition py_set :: "'a list \<Rightarrow> int \<Rightarrow> 'a \<Rightarrow> 'a list option" where
  "py_set xs i v = (case py_index xs i of None \<Rightarrow> None | Some k \<Rightarrow> Some (xs[k := v]))"

text \<open>
  \<open>xs[i], xs[j] = xs[j], xs[i]\<close>: the right-hand side is read first (\<open>xs[j]\<close>, then
  \<open>xs[i]\<close>), then \<open>xs[i]\<close> is assigned, then \<open>xs[j]\<close>.
\<close>

definition py_swap :: "'a list \<Rightarrow> int \<Rightarrow> int \<Rightarrow> 'a list option" where
  "py_swap xs i j =
     do { vj \<leftarrow> py_get xs j;
          vi \<leftarrow> py_get xs i;
          xs1 \<leftarrow> py_set xs i vj;
          py_set xs1 j vi }"

text \<open>
  \<open>xs[a:b]\<close>: a slice never raises; a negative bound counts from the end and both
  bounds are clipped to the list.
\<close>

definition py_slice_bound :: "'a list \<Rightarrow> int \<Rightarrow> nat" where
  "py_slice_bound xs a =
     (let n = int (length xs)
      in if a < 0 then nat (max (a + n) 0) else nat (min a n))"

definition py_slice :: "'a list \<Rightarrow> int \<Rightarrow> int \<Rightarrow> 'a list" where
  "py_slice xs a b =
     (let lo = py_slice_bound xs a; hi = py_slice_bound xs b
      in take (hi - lo) (drop lo xs))"

text \<open>\<open>str(n)\<close> for an integer, as the f-strings of the descriptions format it.\<close>

definition digit_char :: "nat \<Rightarrow> char" where
  "digit_char d = ''0123456789'' ! d"

fun str_nat :: "nat \<Rightarrow> string" where
  "str_nat n = (if n < 10 then [digit_char n] else str_nat (n div 10) @ [digit_char (n mod 10)])"

declare str_nat.simps [simp del]

definition str_int :: "int \<Rightarrow> string" where
  "str_int i = (if i < 0 then CHR ''-'' # str_nat (nat (- i)) else str_nat (nat i))"

text \<open>\<open>str(xs)\<close> for a list: the elements separated by a comma and a space, in brackets.\<close>

fun join_comma :: "string list \<Rightarrow> string" where
  "join_comma [] = []"
| "join_comma [s] = s"
| "join_comma (s # t # ss) = s @ '', '' @ join_comma (t # ss)"

definition str_list :: "('a \<Rightarrow> string) \<Rightarrow> 'a list \<Rightarrow> string" where
  "str_list str xs = ''['' @ join_comma (map str xs) @ '']''"

subsection \<open>Indexing inside the list\<close>

lemma py_index_nat: "k < length xs \<Longrightarrow> py_index xs (int k) = Some k"
  by (simp add: py_index_def)

lemma py_get_nat: "k < length xs \<Longrightarrow> py_get xs (int k) = Some (xs ! k)"
  by (simp add: py_get_def py_index_nat)

lemma py_set_nat: "k < length xs \<Longrightarrow> py_set xs (int k) v = Some (xs[k := v])"
  by (simp add: py_set_def py_index_nat)

lemma py_get_append: "i = int (length xs) \<Longrightarrow> py_get (xs @ y # ys) i = Some y"
  by (simp add: py_get_nat)

lemma py_set_append: "i = int (length xs) \<Longrightarrow> py_set (xs @ y # ys) i v = Some (xs @ v # ys)"
  by (simp add: py_set_nat)

lemma py_swap_append:
  assumes "i = int (length P)" and "j = int (length P) + 1 + int (length M)"
  shows "py_swap (P @ a # M @ b # Q) i j = Some (P @ b # M @ a # Q)"
proof -
  have j: "j = int (length (P @ a # M))" using assms by simp
  have 1: "py_get (P @ a # M @ b # Q) j = Some b"
    using py_get_append[OF j, of b Q] by simp
  have 2: "py_get (P @ a # M @ b # Q) i = Some a"
    using py_get_append[OF assms(1)] by simp
  have 3: "py_set (P @ a # M @ b # Q) i b = Some (P @ b # M @ b # Q)"
    using py_set_append[OF assms(1)] by simp
  have j': "j = int (length (P @ b # M))" using assms by simp
  have 4: "py_set (P @ b # M @ b # Q) j a = Some (P @ b # M @ a # Q)"
    using py_set_append[OF j', of b Q a] by simp
  show ?thesis by (simp add: py_swap_def 1 2 3 4)
qed

lemma py_swap_nat:
  "i < length xs \<Longrightarrow> j < length xs \<Longrightarrow>
   py_swap xs (int i) (int j) = Some (xs[i := xs ! j, j := xs ! i])"
  by (simp add: py_swap_def py_get_nat py_set_nat)

lemma py_slice_append:
  assumes "a = int (length pre)" and "b = int (length pre) + int (length L)"
  shows "py_slice (pre @ L @ rest) a b = L"
  using assms by (simp add: py_slice_def py_slice_bound_def Let_def min_def)

section \<open>Step records\<close>

text \<open>
  Every engine's \<open>add_step\<close> appends a dictionary holding a copy of the array, a
  description and the engine's own highlight fields. The two common fields are the base
  record, which each engine extends.
\<close>

record 'a step =
  array :: "'a list"
  description :: string

section \<open>Quicksort engine\<close>

record qs_step = "int step" +
  pivot_idx :: int
  qs_comparing_indices :: "int list"
  left_part :: "(int \<times> int) option"
  right_part :: "(int \<times> int) option"

text \<open>
  \<open>QuickSortAlgorithm.add_step\<close>. The defaults of the keyword arguments
  (\<open>pivot_idx=-1\<close>, \<open>comparing_indices=None\<close> stored as \<open>[]\<close>, \<open>left_part=None\<close>,
  \<open>right_part=None\<close>) are passed explicitly by the callers below.
\<close>

definition qs_add_step ::
  "qs_step list \<Rightarrow> int list \<Rightarrow> int \<Rightarrow> int list \<Rightarrow> (int \<times> int) option \<Rightarrow> (int \<times> int) option
     \<Rightarrow> string \<Rightarrow> qs_step list" where
  "qs_add_step steps arr pidx cmp lp rp desc =
     steps @ [\<lparr>array = arr, description = desc, pivot_idx = pidx,
               qs_comparing_indices = cmp, left_part = lp, right_part = rp\<rparr>]"

text \<open>
  The \<open>for j in range(low, high)\<close> loop of \<open>partition\<close>, from the current \<open>j\<close>. It
  returns the array, the steps and the boundary \<open>i\<close>.
\<close>

function partition_loop ::
  "int list \<Rightarrow> qs_step list \<Rightarrow> int \<Rightarrow> int \<Rightarrow> int \<Rightarrow> int \<Rightarrow> int
     \<Rightarrow> (int list \<times> qs_step list \<times> int) option" where
  "partition_loop arr steps pivot pidx i j high =
     (if j < high then
        do { aj \<leftarrow> py_get arr j;
             let steps1 = qs_add_step steps arr pidx [j] None None
                            (''Comparing: '' @ str_int aj @ '' <= '' @ str_int pivot @ ''?'');
             if aj \<le> pivot then
               let i1 = i + 1 in
               if i1 \<noteq> j then
                 do { ai \<leftarrow> py_get arr i1;
                      aj' \<leftarrow> py_get arr j;
                      let steps2 = qs_add_step steps1 arr pidx [i1, j] None None
                                     (''Swapping: '' @ str_int ai @ '' <-> '' @ str_int aj');
                      arr1 \<leftarrow> py_swap arr i1 j;
                      let steps3 = qs_add_step steps2 arr1 pidx [] None None ''Swap completed'';
                      partition_loop arr1 steps3 pivot pidx i1 (j + 1) high }
               else partition_loop arr steps1 pivot pidx i1 (j + 1) high
             else partition_loop arr steps1 pivot pidx i (j + 1) high }
      else Some (arr, steps, i))"
  by pat_completeness auto
termination
  by (relation "measure (\<lambda>(arr, steps, pivot, pidx, i, j, high). nat (high - j))") auto

declare partition_loop.simps [simp del]

definition qs_partition ::
  "int list \<Rightarrow> qs_step list \<Rightarrow> int \<Rightarrow> int \<Rightarrow> (int list \<times> qs_step list \<times> int) option" where
  "qs_partition arr steps low high =
     do { pivot \<leftarrow> py_get arr high;
          let pidx = high;
          let steps1 = qs_add_step steps arr pidx [] None None
                         (''Pivot selected: '' @ str_int pivot @ '' (index: '' @ str_int pidx @ '')'');
          (arr1, steps2, i) \<leftarrow> partition_loop arr steps1 pivot pidx (low - 1) low high;
          (arr2, steps3) \<leftarrow>
            (if i + 1 \<noteq> high then
               do { let steps' = qs_add_step steps2 arr1 pidx [i + 1] None None
                                   ''Place pivot in correct position'';
                    arr' \<leftarrow> py_swap arr1 (i + 1) high;
                    Some (arr', steps') }
             else Some (arr1, steps2));
          let steps4 = qs_add_step steps3 arr2 (i + 1)
                         [] (if i \<ge> low then Some (low, i) else None)
                         (if i + 2 \<le> high then Some (i + 2, high) else None)
                         (''Partition completed. Pivot position: '' @ str_int (i + 1));
          Some (arr2, steps4, i + 1) }"

lemma partition_loop_done:
  "\<not> j < high \<Longrightarrow> partition_loop arr steps pivot pidx i j high = Some (arr, steps, i)"
  by (subst partition_loop.simps) simp

lemma partition_loop_get_None:
  "j < high \<Longrightarrow> py_get arr j = None \<Longrightarrow> partition_loop arr steps pivot pidx i j high = None"
  by (subst partition_loop.simps) simp

lemma partition_loop_gt:
  "j < high \<Longrightarrow> py_get arr j = Some aj \<Longrightarrow> \<not> aj \<le> pivot \<Longrightarrow>
   \<exists>ext. partition_loop arr steps pivot pidx i j high =
         partition_loop arr (steps @ ext) pivot pidx i (j + 1) high"
  by (subst partition_loop.simps) (simp add: qs_add_step_def Let_def, rule exI, rule refl)

lemma partition_loop_le_same:
  "j < high \<Longrightarrow> py_get arr j = Some aj \<Longrightarrow> aj \<le> pivot \<Longrightarrow> i + 1 = j \<Longrightarrow>
   \<exists>ext. partition_loop arr steps pivot pidx i j high =
         partition_loop arr (steps @ ext) pivot pidx (i + 1) (j + 1) high"
  by (subst partition_loop.simps) (simp add: qs_add_step_def Let_def, rule exI, rule refl)

lemma py_swap_Some_get:
  "py_swap xs i j = Some ys \<Longrightarrow> \<exists>vi vj. py_get xs i = Some vi \<and> py_get xs j = Some vj"
  by (auto simp: py_swap_def split: bind_splits)

lemma partition_loop_le_swap:
  "j < high \<Longrightarrow> py_get arr j = Some aj \<Longrightarrow> aj \<le> pivot \<Longrightarrow> i + 1 \<noteq> j \<Longrightarrow>
   py_swap arr (i + 1) j = Some arr1 \<Longrightarrow>
   \<exists>ext. partition_loop arr steps pivot pidx i j high =
         partition_loop arr1 (steps @ ext) pivot pidx (i + 1) (j + 1) high"
  apply (frule py_swap_Some_get)
  apply (subst partition_loop.simps) 
  apply (clarsimp simp add: qs_add_step_def Let_def)
  apply (rule exI, rule refl)
  done

lemma partition_loop_le_swap_None:
  "j < high \<Longrightarrow> py_get arr j = Some aj \<Longrightarrow> aj \<le> pivot \<Longrightarrow> i + 1 \<noteq> j \<Longrightarrow>
   py_swap arr (i + 1) j = None \<Longrightarrow>
   partition_loop arr steps pivot pidx i j high = None"
  by (subst partition_loop.simps) (auto simp add: qs_add_step_def split: bind_splits)


lemma partition_loop_bounds:
  "partition_loop arr steps pivot pidx i j high = Some (arr', steps', i')
     \<Longrightarrow> i \<le> i' \<and> i' \<le> i + max 0 (high - j)"
proof (induction "nat (high - j)" arbitrary: arr steps i j)
  case 0
  then show ?case by (simp add: partition_loop_done)
next
  case (Suc n)
  then have lt: "j < high" and n: "n = nat (high - (j + 1))" by linarith+
  note IH = Suc.hyps(1)[OF n]
  show ?case
  proof (cases "py_get arr j")
    case None
    with Suc.prems lt show ?thesis by (simp add: partition_loop_get_None)
  next
    case (Some aj)
    show ?thesis
    proof (cases "aj \<le> pivot")
      case False
      from partition_loop_gt[OF lt Some False] Suc.prems obtain ext where
        "partition_loop arr (steps @ ext) pivot pidx i (j + 1) high = Some (arr', steps', i')"
        by metis
      from IH[OF this] lt show ?thesis by simp
    next
      case le: True
      show ?thesis
      proof (cases "i + 1 = j")
        case True
        from partition_loop_le_same[OF lt Some le True] Suc.prems obtain ext where
          "partition_loop arr (steps @ ext) pivot pidx (i + 1) (j + 1) high = Some (arr', steps', i')"
          by metis
        from IH[OF this] lt show ?thesis by simp
      next
        case False
        show ?thesis
        proof (cases "py_swap arr (i + 1) j")
          case None
          from partition_loop_le_swap_None[OF lt Some le False None] Suc.prems
          show ?thesis by simp
        next
          case (Some arr1)
          from partition_loop_le_swap[OF lt \<open>py_get arr j = Some aj\<close> le False Some] Suc.prems
          obtain ext where
            "partition_loop arr1 (steps @ ext) pivot pidx (i + 1) (j + 1) high = Some (arr', steps', i')"
            by metis
          from IH[OF this] lt show ?thesis by simp
        qed
      qed
    qed
  qed
qed

lemma qs_partition_bounds:
  "qs_partition arr steps low high = Some (arr', steps', p) \<Longrightarrow> low \<le> high \<Longrightarrow>
   low \<le> p \<and> p \<le> high"
  by (auto simp: qs_partition_def Let_def split: bind_splits if_splits dest!: partition_loop_bounds)


function quicksort ::
  "int list \<Rightarrow> qs_step list \<Rightarrow> int \<Rightarrow> int \<Rightarrow> (int list \<times> qs_step list) option" where
  "quicksort arr steps low high =
     (if low < high then
        do { let steps1 = qs_add_step steps arr (-1) [] None None
                            (''Quick Sort - Range: ['' @ str_int low @ '', '' @ str_int high @ '']'');
             (arr1, steps2, pi) \<leftarrow> qs_partition arr steps1 low high;
             (arr2, steps3) \<leftarrow>
               (if low < pi - 1 then
                  quicksort arr1
                    (qs_add_step steps2 arr1 (-1) [] (Some (low, pi - 1)) None
                       (''Sort left side: ['' @ str_int low @ '', '' @ str_int (pi - 1) @ '']''))
                    low (pi - 1)
                else Some (arr1, steps2));
             (if pi + 1 < high then
                quicksort arr2
                  (qs_add_step steps3 arr2 (-1) [] None (Some (pi + 1, high))
                     (''Sort right side: ['' @ str_int (pi + 1) @ '', '' @ str_int high @ '']''))
                  (pi + 1) high
              else Some (arr2, steps3)) }
      else Some (arr, steps))"
  by pat_completeness auto
termination
proof (relation "measure (\<lambda>(arr, steps, low, high). nat (high - low))", goal_cases)
  case 1
  show ?case by simp
next
  case (2 arr steps low high steps1 x arr1 y steps2 pi)
  then have "qs_partition arr steps1 low high = Some (arr1, steps2, pi)" by simp
  from qs_partition_bounds[OF this] 2 show ?case by simp
next
  case (3 arr steps low high steps1 x arr1 y steps2 pi z arr2 steps3)
  then have "qs_partition arr steps1 low high = Some (arr1, steps2, pi)" by simp
  from qs_partition_bounds[OF this] 3 show ?case by simp
qed

declare quicksort.simps [simp del]

text \<open>\<open>QuickSortAlgorithm.sort_algorithm\<close>, on the steps recorded so far.\<close>

definition qs_sort_algorithm ::
  "int list \<Rightarrow> qs_step list \<Rightarrow> (int list \<times> qs_step list) option" where
  "qs_sort_algorithm arr steps =
     do { let steps1 = qs_add_step steps arr (-1) [] None None
                         ''Initial state - Quick Sort algorithm starting'';
          (arr1, steps2) \<leftarrow> quicksort arr steps1 0 (int (length arr) - 1);
          let steps3 = qs_add_step steps2 arr1 (-1) [] None None ''Sorting completed!'';
          Some (arr1, steps3) }"

text \<open>
  The Step Sequence of one run: \<open>generate_steps\<close> empties \<open>self.steps\<close> and calls
  \<open>sort_algorithm\<close> on a copy of the array.
\<close>

definition qs_steps :: "int list \<Rightarrow> qs_step list option" where
  "qs_steps arr = map_option snd (qs_sort_algorithm arr [])"

subsection \<open>Correctness of the quicksort engine\<close>

lemma partition_loop_correct:
  assumes "\<forall>x\<in>set S. x \<le> pv" and "\<forall>x\<in>set G. pv < x"
    and "i = int (length pre) + int (length S) - 1"
    and "j = int (length pre) + int (length S) + int (length G)"
    and "high = j + int (length U)"
  shows "\<exists>S' G' ext.
           partition_loop (pre @ S @ G @ U @ pv # post) steps pv pidx i j high =
             Some (pre @ S' @ G' @ pv # post, steps @ ext, int (length pre) + int (length S') - 1)
           \<and> (\<forall>x\<in>set S'. x \<le> pv) \<and> (\<forall>x\<in>set G'. pv < x)
           \<and> mset (S' @ G') = mset (S @ G @ U)"
  using assms
proof (induction U arbitrary: S G i j steps)
  case Nil
  then show ?case
    by (intro exI[of _ S] exI[of _ G] exI[of _ "[]"]) (simp add: partition_loop_done)
next
  case (Cons u U)
  let ?arr = "pre @ S @ G @ (u # U) @ pv # post"
  have lt: "j < high" using Cons.prems by simp
  have gj: "py_get ?arr j = Some u"
    using py_get_append[of j "pre @ S @ G" u "U @ pv # post"] Cons.prems by simp
  show ?case
  proof (cases "u \<le> pv")
    case False
    from partition_loop_gt[OF lt gj False] obtain ext1 where
      e1: "partition_loop ?arr steps pv pidx i j high =
           partition_loop ?arr (steps @ ext1) pv pidx i (j + 1) high" by blast
    have "\<exists>S' G' ext.
           partition_loop (pre @ S @ (G @ [u]) @ U @ pv # post) (steps @ ext1) pv pidx i (j + 1) high =
             Some (pre @ S' @ G' @ pv # post, (steps @ ext1) @ ext, int (length pre) + int (length S') - 1)
           \<and> (\<forall>x\<in>set S'. x \<le> pv) \<and> (\<forall>x\<in>set G'. pv < x)
           \<and> mset (S' @ G') = mset (S @ (G @ [u]) @ U)"
      using Cons.prems False by (intro Cons.IH) auto
    then obtain S' G' ext where
      "partition_loop ?arr (steps @ ext1) pv pidx i (j + 1) high =
             Some (pre @ S' @ G' @ pv # post, steps @ (ext1 @ ext), int (length pre) + int (length S') - 1)"
      "\<forall>x\<in>set S'. x \<le> pv" "\<forall>x\<in>set G'. pv < x" "mset (S' @ G') = mset (S @ G @ u # U)"
      by auto
    with e1 show ?thesis by (intro exI[of _ S'] exI[of _ G'] exI[of _ "ext1 @ ext"]) simp
  next
    case le: True
    show ?thesis
    proof (cases G)
      case Nil
      have ij: "i + 1 = j" using Cons.prems Nil by simp
      from partition_loop_le_same[OF lt gj le ij] obtain ext1 where
        e1: "partition_loop ?arr steps pv pidx i j high =
             partition_loop ?arr (steps @ ext1) pv pidx (i + 1) (j + 1) high" by blast
      have "\<exists>S' G' ext.
           partition_loop (pre @ (S @ [u]) @ [] @ U @ pv # post) (steps @ ext1) pv pidx (i + 1) (j + 1) high =
             Some (pre @ S' @ G' @ pv # post, (steps @ ext1) @ ext, int (length pre) + int (length S') - 1)
           \<and> (\<forall>x\<in>set S'. x \<le> pv) \<and> (\<forall>x\<in>set G'. pv < x)
           \<and> mset (S' @ G') = mset ((S @ [u]) @ [] @ U)"
        using Cons.prems le Nil by (intro Cons.IH) auto
      then obtain S' G' ext where
        "partition_loop ?arr (steps @ ext1) pv pidx (i + 1) (j + 1) high =
             Some (pre @ S' @ G' @ pv # post, steps @ (ext1 @ ext), int (length pre) + int (length S') - 1)"
        "\<forall>x\<in>set S'. x \<le> pv" "\<forall>x\<in>set G'. pv < x" "mset (S' @ G') = mset (S @ G @ u # U)"
        using Nil by auto
      with e1 show ?thesis by (intro exI[of _ S'] exI[of _ G'] exI[of _ "ext1 @ ext"]) simp
    next
      case (Cons g G')
      have ij: "i + 1 \<noteq> j" using Cons.prems Cons by simp
      have sw: "py_swap ?arr (i + 1) j = Some (pre @ (S @ [u]) @ (G' @ [g]) @ U @ pv # post)"
        using py_swap_append[of "i + 1" "pre @ S" j G' g u "U @ pv # post"] Cons.prems Cons
        by simp
      from partition_loop_le_swap[OF lt gj le ij sw] obtain ext1 where
        e1: "partition_loop ?arr steps pv pidx i j high =
             partition_loop (pre @ (S @ [u]) @ (G' @ [g]) @ U @ pv # post) (steps @ ext1) pv pidx (i + 1) (j + 1) high"
        by blast
      have "\<exists>S' G'' ext.
           partition_loop (pre @ (S @ [u]) @ (G' @ [g]) @ U @ pv # post) (steps @ ext1) pv pidx (i + 1) (j + 1) high =
             Some (pre @ S' @ G'' @ pv # post, (steps @ ext1) @ ext, int (length pre) + int (length S') - 1)
           \<and> (\<forall>x\<in>set S'. x \<le> pv) \<and> (\<forall>x\<in>set G''. pv < x)
           \<and> mset (S' @ G'') = mset ((S @ [u]) @ (G' @ [g]) @ U)"
        using Cons.prems le Cons by (intro Cons.IH) auto
      then obtain S' G'' ext where
        "partition_loop (pre @ (S @ [u]) @ (G' @ [g]) @ U @ pv # post) (steps @ ext1) pv pidx (i + 1) (j + 1) high =
             Some (pre @ S' @ G'' @ pv # post, steps @ (ext1 @ ext), int (length pre) + int (length S') - 1)"
        "\<forall>x\<in>set S'. x \<le> pv" "\<forall>x\<in>set G''. pv < x" "mset (S' @ G'') = mset (S @ G @ u # U)"
        using Cons by auto
      with e1 show ?thesis by (intro exI[of _ S'] exI[of _ G''] exI[of _ "ext1 @ ext"]) simp
    qed
  qed
qed


lemma qs_partition_correct:
  assumes "seg \<noteq> []" and "low = int (length pre)"
    and "high = int (length pre) + int (length seg) - 1"
  shows "\<exists>S pv G ext.
           qs_partition (pre @ seg @ post) steps low high =
             Some (pre @ S @ pv # G @ post, steps @ ext, int (length pre) + int (length S))
           \<and> (\<forall>x\<in>set S. x \<le> pv) \<and> (\<forall>x\<in>set G. pv < x)
           \<and> mset (S @ pv # G) = mset seg
           \<and> pv = last seg \<and> mset (S @ G) = mset (butlast seg)"
proof -
  obtain U pv where seg: "seg = U @ [pv]"
    using assms(1) by (metis append_butlast_last_id)
  let ?arr = "pre @ seg @ post"
  have arr: "?arr = pre @ [] @ [] @ U @ pv # post" by (simp add: seg)
  have hi: "high = int (length pre) + int (length U)" using assms seg by simp
  have gp: "py_get ?arr high = Some pv"
    using py_get_append[of high "pre @ U" pv post] hi by (simp add: seg)
  let ?steps1 = "qs_add_step steps ?arr high [] None None
       (''Pivot selected: '' @ str_int pv @ '' (index: '' @ str_int high @ '')'')"
  obtain e1 where e1: "?steps1 = steps @ e1" by (simp add: qs_add_step_def)
  from partition_loop_correct[of "[]" pv "[]" "low - 1" pre low high U post ?steps1 high]
  obtain S G' ext where
    loop: "partition_loop ?arr ?steps1 pv high (low - 1) low high =
           Some (pre @ S @ G' @ pv # post, ?steps1 @ ext, int (length pre) + int (length S) - 1)"
    and S: "\<forall>x\<in>set S. x \<le> pv" and G': "\<forall>x\<in>set G'. pv < x"
    and ms: "mset (S @ G') = mset U"
    using assms hi unfolding arr by auto
  from ms have "size (mset (S @ G')) = size (mset U)" by simp
  then have len: "length S + length G' = length U" by simp
  show ?thesis
  proof (cases G')
    case Nil
    then have "int (length pre) + int (length S) - 1 + 1 = high" using len hi by simp
    then have "\<exists>e. qs_partition ?arr steps low high =
        Some (pre @ S @ pv # [] @ post, steps @ e, int (length pre) + int (length S))"
      using gp loop Nil e1 by (simp add: qs_partition_def qs_add_step_def)
    then obtain e where "qs_partition ?arr steps low high =
        Some (pre @ S @ pv # [] @ post, steps @ e, int (length pre) + int (length S))" by blast
    then have "qs_partition ?arr steps low high =
        Some (pre @ S @ pv # [] @ post, steps @ e, int (length pre) + int (length S))
        \<and> (\<forall>x\<in>set S. x \<le> pv) \<and> (\<forall>x\<in>set []. pv < x) \<and> mset (S @ pv # []) = mset seg
        \<and> pv = last seg \<and> mset (S @ []) = mset (butlast seg)"
      using S ms Nil by (simp add: seg)
    then show ?thesis by blast
  next
    case (Cons g G'')
    then have ne: "int (length pre) + int (length S) - 1 + 1 \<noteq> high" using len hi by simp
    have sw: "py_swap (pre @ S @ G' @ pv # post) (int (length pre) + int (length S) - 1 + 1) high
                = Some (pre @ S @ pv # (G'' @ [g]) @ post)"
    proof -
      have i': "int (length pre) + int (length S) - 1 + 1 = int (length (pre @ S))" by simp
      have hi': "high = int (length (pre @ S)) + 1 + int (length G'')" using len hi Cons by simp
      from py_swap_append[OF i' hi', of g pv post] show ?thesis using Cons by simp
    qed
    have "\<exists>e. qs_partition ?arr steps low high =
        Some (pre @ S @ pv # (G'' @ [g]) @ post, steps @ e, int (length pre) + int (length S))"
      using gp loop ne sw e1
      by (simp add: qs_partition_def qs_add_step_def)
    then obtain e where "qs_partition ?arr steps low high =
        Some (pre @ S @ pv # (G'' @ [g]) @ post, steps @ e, int (length pre) + int (length S))" by blast
    then have "qs_partition ?arr steps low high =
        Some (pre @ S @ pv # (G'' @ [g]) @ post, steps @ e, int (length pre) + int (length S))
        \<and> (\<forall>x\<in>set S. x \<le> pv) \<and> (\<forall>x\<in>set (G'' @ [g]). pv < x)
        \<and> mset (S @ pv # (G'' @ [g])) = mset seg
        \<and> pv = last seg \<and> mset (S @ (G'' @ [g])) = mset (butlast seg)"
      using S G' ms Cons by (auto simp: seg)
    then show ?thesis by blast
  qed
qed

lemma quicksort_correct:
  assumes "low = int (length pre)" and "high = int (length pre) + int (length seg) - 1"
  shows "\<exists>seg' ext.
           quicksort (pre @ seg @ post) steps low high = Some (pre @ seg' @ post, steps @ ext)
           \<and> sorted seg' \<and> mset seg' = mset seg"
  using assms
proof (induction "length seg" arbitrary: seg pre post steps low high rule: less_induct)
  case less
  show ?case
  proof (cases "length seg \<le> 1")
    case True
    then have "\<not> low < high" using less.prems by simp
    then have "quicksort (pre @ seg @ post) steps low high = Some (pre @ seg @ post, steps @ [])"
      by (subst quicksort.simps) (simp split: if_splits)
    moreover have "sorted seg" using True by (cases seg) (auto simp: le_Suc_eq)
    ultimately show ?thesis by blast
  next
    case False
    then have lt: "low < high" and ne: "seg \<noteq> []" using less.prems by auto
    let ?steps1 = "qs_add_step steps (pre @ seg @ post) (-1) [] None None
         (''Quick Sort - Range: ['' @ str_int low @ '', '' @ str_int high @ '']'')"
    obtain e1 where e1: "?steps1 = steps @ e1" by (simp add: qs_add_step_def)
    from qs_partition_correct[OF ne less.prems, of post ?steps1]
    obtain S pv G e2 where
      part: "qs_partition (pre @ seg @ post) ?steps1 low high =
             Some (pre @ S @ pv # G @ post, ?steps1 @ e2, int (length pre) + int (length S))"
      and S: "\<forall>x\<in>set S. x \<le> pv" and G: "\<forall>x\<in>set G. pv < x"
      and ms: "mset (S @ pv # G) = mset seg" by blast
    from ms have "size (mset (S @ pv # G)) = size (mset seg)" by simp
    then have len: "length S + 1 + length G = length seg" by simp
    let ?p = "int (length pre) + int (length S)"
    text \<open>the left side\<close>
    have "\<exists>S' e3.
       (if low < ?p - 1 then
          quicksort (pre @ S @ pv # G @ post)
            (qs_add_step (?steps1 @ e2) (pre @ S @ pv # G @ post) (-1) [] (Some (low, ?p - 1)) None
               (''Sort left side: ['' @ str_int low @ '', '' @ str_int (?p - 1) @ '']''))
            low (?p - 1)
        else Some (pre @ S @ pv # G @ post, ?steps1 @ e2))
        = Some (pre @ S' @ pv # G @ post, steps @ e3) \<and> sorted S' \<and> mset S' = mset S"
    proof (cases "low < ?p - 1")
      case True
      have "length S < length seg" using len by simp
      let ?st = "qs_add_step (?steps1 @ e2) (pre @ S @ pv # G @ post) (-1) [] (Some (low, ?p - 1)) None
               (''Sort left side: ['' @ str_int low @ '', '' @ str_int (?p - 1) @ '']'')"
      have "\<exists>seg' ext. quicksort (pre @ S @ (pv # G @ post)) ?st low (?p - 1)
               = Some (pre @ seg' @ (pv # G @ post), ?st @ ext) \<and> sorted seg' \<and> mset seg' = mset S"
        by (rule less.hyps) (use \<open>length S < length seg\<close> less.prems(1) in auto)
      then obtain S' e where
        "quicksort (pre @ S @ pv # G @ post) ?st low (?p - 1) =
          Some (pre @ S' @ pv # G @ post, ?st @ e)"
        "sorted S'" "mset S' = mset S" by auto
      then show ?thesis using True e1 by (auto simp: qs_add_step_def)
    next
      case False
      then have "length S \<le> 1" using less.prems(1) by simp
      then have "sorted S" by (cases S) (auto simp: le_Suc_eq)
      then show ?thesis using False e1 by auto
    qed
    then obtain S' e3 where
      left: "(if low < ?p - 1 then
          quicksort (pre @ S @ pv # G @ post)
            (qs_add_step (?steps1 @ e2) (pre @ S @ pv # G @ post) (-1) [] (Some (low, ?p - 1)) None
               (''Sort left side: ['' @ str_int low @ '', '' @ str_int (?p - 1) @ '']''))
            low (?p - 1)
        else Some (pre @ S @ pv # G @ post, ?steps1 @ e2))
        = Some (pre @ S' @ pv # G @ post, steps @ e3)"
      and S': "sorted S'" "mset S' = mset S" by blast
    from S'(2) have "size (mset S') = size (mset S)" by simp
    then have lenS: "length S' = length S" by simp
    text \<open>the right side\<close>
    have "\<exists>G' e4.
       (if ?p + 1 < high then
          quicksort (pre @ S' @ pv # G @ post)
            (qs_add_step (steps @ e3) (pre @ S' @ pv # G @ post) (-1) [] None (Some (?p + 1, high))
               (''Sort right side: ['' @ str_int (?p + 1) @ '', '' @ str_int high @ '']''))
            (?p + 1) high
        else Some (pre @ S' @ pv # G @ post, steps @ e3))
        = Some (pre @ S' @ pv # G' @ post, steps @ e4) \<and> sorted G' \<and> mset G' = mset G"
    proof (cases "?p + 1 < high")
      case True
      have "length G < length seg" using len by simp
      let ?st = "qs_add_step (steps @ e3) (pre @ S' @ pv # G @ post) (-1) [] None (Some (?p + 1, high))
               (''Sort right side: ['' @ str_int (?p + 1) @ '', '' @ str_int high @ '']'')"
      have "\<exists>seg' ext. quicksort ((pre @ S' @ [pv]) @ G @ post) ?st (?p + 1) high
               = Some ((pre @ S' @ [pv]) @ seg' @ post, ?st @ ext) \<and> sorted seg' \<and> mset seg' = mset G"
        by (rule less.hyps) (use \<open>length G < length seg\<close> less.prems(2) len lenS in auto)
      then obtain G' e where
        "quicksort (pre @ S' @ pv # G @ post) ?st (?p + 1) high =
          Some (pre @ S' @ pv # G' @ post, ?st @ e)"
        "sorted G'" "mset G' = mset G" by auto
      then show ?thesis using True by (auto simp: qs_add_step_def)
    next
      case False
      then have "length G \<le> 1" using less.prems(2) len by simp
      then have "sorted G" by (cases G) (auto simp: le_Suc_eq)
      then show ?thesis using False by auto
    qed
    then obtain G' e4 where
      right: "(if ?p + 1 < high then
          quicksort (pre @ S' @ pv # G @ post)
            (qs_add_step (steps @ e3) (pre @ S' @ pv # G @ post) (-1) [] None (Some (?p + 1, high))
               (''Sort right side: ['' @ str_int (?p + 1) @ '', '' @ str_int high @ '']''))
            (?p + 1) high
        else Some (pre @ S' @ pv # G @ post, steps @ e3))
        = Some (pre @ S' @ pv # G' @ post, steps @ e4)"
      and G': "sorted G'" "mset G' = mset G" by blast
    have run: "quicksort (pre @ seg @ post) steps low high
                 = Some (pre @ (S' @ pv # G') @ post, steps @ e4)"
      using lt part left right
      by (subst quicksort.simps) (simp split: if_splits)
    have "set S' = set S" "set G' = set G"
      using S'(2) G'(2) by (metis set_mset_mset)+
    then have "sorted (S' @ pv # G')"
      using S G S'(1) G'(1) by (fastforce simp: sorted_append)
    moreover have "mset (S' @ pv # G') = mset seg"
      using S'(2) G'(2) ms by simp
    ultimately show ?thesis using run by blast
  qed
qed


lemma qs_sort_algorithm_correct:
  "\<exists>arr' ext.
     qs_sort_algorithm arr [] =
       Some (arr', \<lparr>array = arr, description = ''Initial state - Quick Sort algorithm starting'',
                     pivot_idx = -1, qs_comparing_indices = [], left_part = None, right_part = None\<rparr>
                   # ext @
                   [\<lparr>array = arr', description = ''Sorting completed!'',
                     pivot_idx = -1, qs_comparing_indices = [], left_part = None, right_part = None\<rparr>])
     \<and> sorted arr' \<and> mset arr' = mset arr"
proof -
  let ?s1 = "qs_add_step [] arr (-1) [] None None ''Initial state - Quick Sort algorithm starting''"
  have "\<exists>seg' ext. quicksort ([] @ arr @ []) ?s1 0 (int (length arr) - 1)
           = Some ([] @ seg' @ [], ?s1 @ ext) \<and> sorted seg' \<and> mset seg' = mset arr"
    by (rule quicksort_correct) auto
  then obtain arr' ext where
    r: "quicksort arr ?s1 0 (int (length arr) - 1) = Some (arr', ?s1 @ ext)"
    and p: "sorted arr'" "mset arr' = mset arr" by auto
  from r have "qs_sort_algorithm arr [] =
       Some (arr', \<lparr>array = arr, description = ''Initial state - Quick Sort algorithm starting'',
                     pivot_idx = -1, qs_comparing_indices = [], left_part = None, right_part = None\<rparr>
                   # ext @
                   [\<lparr>array = arr', description = ''Sorting completed!'',
                     pivot_idx = -1, qs_comparing_indices = [], left_part = None, right_part = None\<rparr>])"
    by (simp add: qs_sort_algorithm_def qs_add_step_def)
  with p show ?thesis by blast
qed

text \<open>
  The boundary that the scan of \<open>partition\<close> ends with: one less than \<open>low\<close> plus the
  number of scanned elements that are less than or equal to the pivot.
\<close>

lemma partition_count:
  assumes "\<forall>x\<in>set S'. x \<le> (pv::int)" and "\<forall>x\<in>set G'. pv < x"
    and "\<forall>x\<in>set S. x \<le> pv" and "\<forall>x\<in>set G. pv < x"
    and "mset (S' @ G') = mset (S @ G @ U)"
  shows "length S' = length S + length (filter (\<lambda>x. x \<le> pv) U)"
proof -
  have "mset (filter (\<lambda>x. x \<le> pv) (S' @ G')) = mset (filter (\<lambda>x. x \<le> pv) (S @ G @ U))"
    using assms(5) by (simp only: mset_filter)
  then have "length (filter (\<lambda>x. x \<le> pv) (S' @ G')) = length (filter (\<lambda>x. x \<le> pv) (S @ G @ U))"
    by (metis size_mset)
  moreover have "filter (\<lambda>x. x \<le> pv) S' = S'" "filter (\<lambda>x. x \<le> pv) S = S"
    using assms(1,3) by (simp_all add: filter_id_conv)
  moreover have "filter (\<lambda>x. x \<le> pv) G' = []" "filter (\<lambda>x. x \<le> pv) G = []"
    using assms(2,4) by (auto simp: filter_empty_conv)
  ultimately show ?thesis by simp
qed

lemma partition_scan_boundary:
  assumes "seg \<noteq> []" and "low = int (length pre)"
    and "high = int (length pre) + int (length seg) - 1"
  shows "\<exists>arr1 st'. partition_loop (pre @ seg @ post) st (last seg) pidx (low - 1) low high
           = Some (arr1, st',
                   low - 1 + int (length (filter (\<lambda>x. x \<le> last seg) (butlast seg))))"
proof -
  obtain U pv where seg: "seg = U @ [pv]"
    using assms(1) by (metis append_butlast_last_id)
  have hi: "high = int (length pre) + int (length U)" using assms seg by simp
  have "\<exists>S' G' ext.
           partition_loop (pre @ [] @ [] @ U @ pv # post) st pv pidx (low - 1) low high =
             Some (pre @ S' @ G' @ pv # post, st @ ext, int (length pre) + int (length S') - 1)
           \<and> (\<forall>x\<in>set S'. x \<le> pv) \<and> (\<forall>x\<in>set G'. pv < x)
           \<and> mset (S' @ G') = mset ([] @ [] @ U)"
    by (rule partition_loop_correct) (use assms hi in auto)
  then obtain S' G' ext where
    loop: "partition_loop (pre @ seg @ post) st pv pidx (low - 1) low high =
             Some (pre @ S' @ G' @ pv # post, st @ ext, int (length pre) + int (length S') - 1)"
    and o: "\<forall>x\<in>set S'. x \<le> pv" "\<forall>x\<in>set G'. pv < x" and ms: "mset (S' @ G') = mset ([] @ [] @ U)"
    by (auto simp: seg)
  from partition_count[OF o _ _ ms] have "length S' = length (filter (\<lambda>x. x \<le> pv) U)" by simp
  with loop show ?thesis using assms(2) by (simp add: seg)
qed

lemma qs_partition_boundary:
  assumes "seg \<noteq> []" and "low = int (length pre)"
    and "high = int (length pre) + int (length seg) - 1"
  shows "\<exists>arr' ext. qs_partition (pre @ seg @ post) steps low high
           = Some (arr', steps @ ext,
                   low - 1 + int (length (filter (\<lambda>x. x \<le> last seg) (butlast seg))) + 1)"
proof -
  from qs_partition_correct[OF assms, of post steps] obtain S pv G ext where
    p: "qs_partition (pre @ seg @ post) steps low high =
             Some (pre @ S @ pv # G @ post, steps @ ext, int (length pre) + int (length S))"
    and o: "\<forall>x\<in>set S. x \<le> pv" "\<forall>x\<in>set G. pv < x"
    and pv: "pv = last seg" and ms: "mset (S @ G) = mset (butlast seg)" by blast
  have "mset (S @ G) = mset ([] @ [] @ butlast seg)" using ms by simp
  from partition_count[OF o _ _ this] have "length S = length (filter (\<lambda>x. x \<le> pv) (butlast seg))"
    by simp
  with p pv assms(2) show ?thesis by simp
qed

lemma qs_partition_last_step:
  assumes "qs_partition arr steps low high = Some (arr', steps', p)"
  shows "pivot_idx (last steps') = p
       \<and> description (last steps') = ''Partition completed. Pivot position: '' @ str_int p
       \<and> array (last steps') = arr'
       \<and> left_part (last steps') = (if p - 1 \<ge> low then Some (low, p - 1) else None)
       \<and> right_part (last steps') = (if (p - 1) + 2 \<le> high then Some ((p - 1) + 2, high) else None)"
  using assms
  by (auto simp: qs_partition_def qs_add_step_def Let_def split: bind_splits if_splits)

section \<open>Merge sort engine\<close>

text \<open>
  The engine compares elements only with \<open><=\<close> and formats them only in descriptions. To
  make the order in which equal elements leave the engine observable, the model takes the
  elements from any type, compares them through \<open>key\<close> and formats them with \<open>str\<close>; the
  application sorts integers, which is the instance \<open>key = (\<lambda>x. x)\<close>, \<open>str = str_int\<close>.
\<close>

record 'a ms_step = "'a step" +
  left_subarray :: "(int \<times> int) option"
  right_subarray :: "(int \<times> int) option"
  merging_range :: "(int \<times> int) option"
  ms_comparing_indices :: "int list"

text \<open>
  \<open>MergeSortAlgorithm.add_step\<close>; the defaults (\<open>None\<close> for the three ranges,
  \<open>comparing_indices=None\<close> stored as \<open>[]\<close>) are passed explicitly by the callers.
\<close>

definition ms_add_step ::
  "'a ms_step list \<Rightarrow> 'a list \<Rightarrow> (int \<times> int) option \<Rightarrow> (int \<times> int) option \<Rightarrow> (int \<times> int) option
     \<Rightarrow> int list \<Rightarrow> string \<Rightarrow> 'a ms_step list" where
  "ms_add_step steps arr ls rs mr cmp desc =
     steps @ [\<lparr>array = arr, description = desc, left_subarray = ls, right_subarray = rs,
               merging_range = mr, ms_comparing_indices = cmp\<rparr>]"

text \<open>The first loop of \<open>merge\<close>: \<open>while i < len(left_arr) and j < len(right_arr)\<close>.\<close>

function merge_loop ::
  "('a \<Rightarrow> int) \<Rightarrow> ('a \<Rightarrow> string) \<Rightarrow> 'a list \<Rightarrow> 'a ms_step list \<Rightarrow> 'a list \<Rightarrow> 'a list
     \<Rightarrow> int \<Rightarrow> int \<Rightarrow> int \<Rightarrow> int \<Rightarrow> int \<Rightarrow> int
     \<Rightarrow> ('a list \<times> 'a ms_step list \<times> int \<times> int \<times> int) option" where
  "merge_loop key str arr steps left_arr right_arr left mid right i j k =
     (if i < int (length left_arr) \<and> j < int (length right_arr) then
        do { li \<leftarrow> py_get left_arr i;
             rj \<leftarrow> py_get right_arr j;
             let steps1 = ms_add_step steps arr None None (Some (left, right))
                            [left + i, mid + 1 + j]
                            (''Comparing: '' @ str li @ '' vs '' @ str rj @ '' at positions ''
                               @ str_int (left + i) @ '' and '' @ str_int (mid + 1 + j));
             if key li \<le> key rj then
               do { arr1 \<leftarrow> py_set arr k li;
                    let steps2 = ms_add_step steps1 arr1 None None (Some (left, right)) []
                                   (''Placed '' @ str li @ '' at position '' @ str_int k);
                    merge_loop key str arr1 steps2 left_arr right_arr left mid right
                      (i + 1) j (k + 1) }
             else
               do { arr1 \<leftarrow> py_set arr k rj;
                    let steps2 = ms_add_step steps1 arr1 None None (Some (left, right)) []
                                   (''Placed '' @ str rj @ '' at position '' @ str_int k);
                    merge_loop key str arr1 steps2 left_arr right_arr left mid right
                      i (j + 1) (k + 1) } }
      else Some (arr, steps, i, j, k))"
  by pat_completeness auto
termination
  by (relation "measure (\<lambda>(key, str, arr, steps, left_arr, right_arr, left, mid, right, i, j, k).
                   nat (int (length left_arr) - i) + nat (int (length right_arr) - j))") auto

declare merge_loop.simps [simp del]

text \<open>
  The two copy loops of \<open>merge\<close>, \<open>while i < len(left_arr)\<close> and
  \<open>while j < len(right_arr)\<close>; \<open>side\<close> is the word of the description, \<open>left\<close> or \<open>right\<close>.
\<close>

function copy_remaining ::
  "('a \<Rightarrow> string) \<Rightarrow> string \<Rightarrow> 'a list \<Rightarrow> 'a ms_step list \<Rightarrow> 'a list \<Rightarrow> int \<Rightarrow> int \<Rightarrow> int \<Rightarrow> int
     \<Rightarrow> ('a list \<times> 'a ms_step list \<times> int \<times> int) option" where
  "copy_remaining str side arr steps src left right i k =
     (if i < int (length src) then
        do { v \<leftarrow> py_get src i;
             arr1 \<leftarrow> py_set arr k v;
             v' \<leftarrow> py_get src i;
             let steps1 = ms_add_step steps arr1 None None (Some (left, right)) []
                            (''Copying remaining '' @ side @ '' element: '' @ str v'
                               @ '' to position '' @ str_int k);
             copy_remaining str side arr1 steps1 src left right (i + 1) (k + 1) }
      else Some (arr, steps, i, k))"
  by pat_completeness auto
termination
  by (relation "measure (\<lambda>(str, side, arr, steps, src, left, right, i, k).
                   nat (int (length src) - i))") auto

declare copy_remaining.simps [simp del]

text \<open>\<open>MergeSortAlgorithm.merge\<close>\<close>

definition ms_merge ::
  "('a \<Rightarrow> int) \<Rightarrow> ('a \<Rightarrow> string) \<Rightarrow> 'a list \<Rightarrow> 'a ms_step list \<Rightarrow> int \<Rightarrow> int \<Rightarrow> int
     \<Rightarrow> ('a list \<times> 'a ms_step list) option" where
  "ms_merge key str arr steps left mid right =
     do { let left_arr = py_slice arr left (mid + 1);
          let right_arr = py_slice arr (mid + 1) (right + 1);
          let steps1 = ms_add_step steps arr (Some (left, mid)) (Some (mid + 1, right)) None []
                         (''Created temp arrays: Left'' @ str_list str left_arr
                            @ '', Right'' @ str_list str right_arr);
          (arr1, steps2, i, j, k) \<leftarrow>
            merge_loop key str arr steps1 left_arr right_arr left mid right 0 0 left;
          (arr2, steps3, i', k') \<leftarrow>
            copy_remaining str ''left'' arr1 steps2 left_arr left right i k;
          (arr3, steps4, j', k'') \<leftarrow>
            copy_remaining str ''right'' arr2 steps3 right_arr left right j k';
          Some (arr3,
                ms_add_step steps4 arr3 None None (Some (left, right)) []
                  (''Merge completed for range ['' @ str_int left @ '':'' @ str_int right @ '']'')) }"

text \<open>\<open>MergeSortAlgorithm.merge_sort_recursive\<close>; \<open>//\<close> is floor division, as \<open>div\<close> is.\<close>

function merge_sort_recursive ::
  "('a \<Rightarrow> int) \<Rightarrow> ('a \<Rightarrow> string) \<Rightarrow> 'a list \<Rightarrow> 'a ms_step list \<Rightarrow> int \<Rightarrow> int
     \<Rightarrow> ('a list \<times> 'a ms_step list) option" where
  "merge_sort_recursive key str arr steps left right =
     (if left < right then
        do { let mid = (left + right) div 2;
             let steps1 = ms_add_step steps arr (Some (left, mid)) (Some (mid + 1, right)) None []
                            (''Dividing array: Left['' @ str_int left @ '':'' @ str_int mid
                               @ ''], Right['' @ str_int (mid + 1) @ '':'' @ str_int right @ '']'');
             let steps2 = ms_add_step steps1 arr (Some (left, mid)) None None []
                            (''Sorting left subarray: ['' @ str_int left @ '':'' @ str_int mid @ '']'');
             (arr1, steps3) \<leftarrow> merge_sort_recursive key str arr steps2 left mid;
             let steps4 = ms_add_step steps3 arr1 None (Some (mid + 1, right)) None []
                            (''Sorting right subarray: ['' @ str_int (mid + 1) @ '':''
                               @ str_int right @ '']'');
             (arr2, steps5) \<leftarrow> merge_sort_recursive key str arr1 steps4 (mid + 1) right;
             let steps6 = ms_add_step steps5 arr2 (Some (left, mid)) (Some (mid + 1, right)) None []
                            (''Merging sorted subarrays: ['' @ str_int left @ '':'' @ str_int mid
                               @ ''] and ['' @ str_int (mid + 1) @ '':'' @ str_int right @ '']'');
             ms_merge key str arr2 steps6 left mid right }
      else Some (arr, steps))"
  by pat_completeness auto
termination
  by (relation "measure (\<lambda>(key, str, arr, steps, left, right). nat (right - left))") auto

declare merge_sort_recursive.simps [simp del]

text \<open>\<open>MergeSortAlgorithm.sort_algorithm\<close>, on the steps recorded so far.\<close>

definition ms_sort_algorithm ::
  "('a \<Rightarrow> int) \<Rightarrow> ('a \<Rightarrow> string) \<Rightarrow> 'a list \<Rightarrow> 'a ms_step list
     \<Rightarrow> ('a list \<times> 'a ms_step list) option" where
  "ms_sort_algorithm key str arr steps =
     do { let steps1 = ms_add_step steps arr None None None []
                         ''Initial state - Merge Sort algorithm starting'';
          (arr1, steps2) \<leftarrow> merge_sort_recursive key str arr steps1 0 (int (length arr) - 1);
          let steps3 = ms_add_step steps2 arr1 None None None []
                         ''Merge Sort completed! Array is now fully sorted'';
          Some (arr1, steps3) }"

text \<open>The Step Sequence of one run, on any elements and on the integers of the application.\<close>

definition ms_steps_key :: "('a \<Rightarrow> int) \<Rightarrow> ('a \<Rightarrow> string) \<Rightarrow> 'a list \<Rightarrow> 'a ms_step list option" where
  "ms_steps_key key str arr = map_option snd (ms_sort_algorithm key str arr [])"

definition ms_steps :: "int list \<Rightarrow> int ms_step list option" where
  "ms_steps arr = ms_steps_key (\<lambda>x. x) str_int arr"

subsection \<open>Correctness of the merge sort engine\<close>

text \<open>
  What the three loops of \<open>merge\<close> compute from the two temporary arrays: the
  left element goes first whenever its key is less than or equal to the right one.
\<close>

fun merge_lists :: "('a \<Rightarrow> int) \<Rightarrow> 'a list \<Rightarrow> 'a list \<Rightarrow> 'a list" where
  "merge_lists key [] ys = ys"
| "merge_lists key xs [] = xs"
| "merge_lists key (x # xs) (y # ys) =
     (if key x \<le> key y then x # merge_lists key xs (y # ys)
      else y # merge_lists key (x # xs) ys)"

lemma merge_lists_Nil2 [simp]: "merge_lists key xs [] = xs"
  by (cases xs) simp_all

lemma mset_merge_lists: "mset (merge_lists key xs ys) = mset xs + mset ys"
  by (induction key xs ys rule: merge_lists.induct) auto

lemma set_merge_lists: "set (merge_lists key xs ys) = set xs \<union> set ys"
  by (induction key xs ys rule: merge_lists.induct) auto

lemma sorted_merge_lists:
  "sorted (map key xs) \<Longrightarrow> sorted (map key ys) \<Longrightarrow> sorted (map key (merge_lists key xs ys))"
  by (induction key xs ys rule: merge_lists.induct) (auto simp: set_merge_lists)

lemma filter_merge_lists:
  "sorted (map key xs) \<Longrightarrow> sorted (map key ys) \<Longrightarrow>
   filter (\<lambda>x. key x = c) (merge_lists key xs ys)
     = filter (\<lambda>x. key x = c) xs @ filter (\<lambda>x. key x = c) ys"
proof (induction key xs ys rule: merge_lists.induct)
  case (3 key x xs y ys)
  show ?case
  proof (cases "key x \<le> key y")
    case True
    with 3 show ?thesis by simp
  next
    case False
    have "filter (\<lambda>x. key x = key y) (x # xs) = []"
      using False "3.prems"(1) by (auto simp: filter_empty_conv)
    with False 3 show ?thesis by auto
  qed
qed simp_all

lemma merge_loop_done:
  "\<not> (i < int (length la) \<and> j < int (length ra)) \<Longrightarrow>
   merge_loop key str arr steps la ra left mid right i j k = Some (arr, steps, i, j, k)"
  by (subst merge_loop.simps) auto

lemma merge_loop_left:
  "i < int (length la) \<Longrightarrow> j < int (length ra) \<Longrightarrow> py_get la i = Some li \<Longrightarrow>
   py_get ra j = Some rj \<Longrightarrow> key li \<le> key rj \<Longrightarrow> py_set arr k li = Some arr1 \<Longrightarrow>
   \<exists>ext. merge_loop key str arr steps la ra left mid right i j k =
         merge_loop key str arr1 (steps @ ext) la ra left mid right (i + 1) j (k + 1)"
  by (subst merge_loop.simps) (simp add: ms_add_step_def Let_def, rule exI, rule refl)

lemma merge_loop_right:
  "i < int (length la) \<Longrightarrow> j < int (length ra) \<Longrightarrow> py_get la i = Some li \<Longrightarrow>
   py_get ra j = Some rj \<Longrightarrow> \<not> key li \<le> key rj \<Longrightarrow> py_set arr k rj = Some arr1 \<Longrightarrow>
   \<exists>ext. merge_loop key str arr steps la ra left mid right i j k =
         merge_loop key str arr1 (steps @ ext) la ra left mid right i (j + 1) (k + 1)"
  by (subst merge_loop.simps) (simp add: ms_add_step_def Let_def, rule exI, rule refl)

lemma copy_remaining_done:
  "\<not> i < int (length src) \<Longrightarrow>
   copy_remaining str side arr steps src left right i k = Some (arr, steps, i, k)"
  by (subst copy_remaining.simps) auto

lemma copy_remaining_step:
  "i < int (length src) \<Longrightarrow> py_get src i = Some v \<Longrightarrow> py_set arr k v = Some arr1 \<Longrightarrow>
   \<exists>ext. copy_remaining str side arr steps src left right i k =
         copy_remaining str side arr1 (steps @ ext) src left right (i + 1) (k + 1)"
  by (subst copy_remaining.simps) (simp add: ms_add_step_def Let_def, rule exI, rule refl)

lemma merge_loop_correct:
  assumes "a \<le> length la" and "b \<le> length ra"
    and "length X = (length la - a) + (length ra - b)"
    and "k = int (length pre) + int (length D)"
  shows "\<exists>a' b' M X' ext.
           merge_loop key str (pre @ D @ X @ post) steps la ra left mid right (int a) (int b) k
             = Some (pre @ D @ M @ X' @ post, steps @ ext, int a', int b', k + int (length M))
           \<and> a' \<le> length la \<and> b' \<le> length ra \<and> (a' = length la \<or> b' = length ra)
           \<and> M @ merge_lists key (drop a' la) (drop b' ra) = merge_lists key (drop a la) (drop b ra)
           \<and> length X' = (length la - a') + (length ra - b')"
  using assms
proof (induction "(length la - a) + (length ra - b)" arbitrary: a b D X steps k rule: less_induct)
  case less
  let ?arr = "pre @ D @ X @ post"
  show ?case
  proof (cases "a < length la \<and> b < length ra")
    case False
    then have "merge_loop key str ?arr steps la ra left mid right (int a) (int b) k
                 = Some (pre @ D @ [] @ X @ post, steps @ [], int a, int b, k + int (length ([]::'a list)))"
      by (simp add: merge_loop_done)
    moreover have "a = length la \<or> b = length ra" using False less.prems by auto
    ultimately show ?thesis using less.prems by blast
  next
    case True
    then obtain x X1 where X: "X = x # X1" using less.prems(3) by (cases X) auto
    have gl: "py_get la (int a) = Some (la ! a)" and gr: "py_get ra (int b) = Some (ra ! b)"
      using True by (simp_all add: py_get_nat)
    have dl: "drop a la = la ! a # drop (Suc a) la" and dr: "drop b ra = ra ! b # drop (Suc b) ra"
      using True by (simp_all add: Cons_nth_drop_Suc)
    have ia: "int a < int (length la)" and ib: "int b < int (length ra)" using True by simp_all
    show ?thesis
    proof (cases "key (la ! a) \<le> key (ra ! b)")
      case le: True
      have st: "py_set ?arr k (la ! a) = Some (pre @ (D @ [la ! a]) @ X1 @ post)"
        using py_set_append[of k "pre @ D" x "X1 @ post" "la ! a"] less.prems(4) X by simp
      from merge_loop_left[OF ia ib gl gr le st] obtain e1 where
        e1: "merge_loop key str ?arr steps la ra left mid right (int a) (int b) k =
             merge_loop key str (pre @ (D @ [la ! a]) @ X1 @ post) (steps @ e1) la ra left mid right
               (int a + 1) (int b) (k + 1)" by blast
      have "\<exists>a' b' M X' ext.
           merge_loop key str (pre @ (D @ [la ! a]) @ X1 @ post) (steps @ e1) la ra left mid right
               (int (Suc a)) (int b) (k + 1)
             = Some (pre @ (D @ [la ! a]) @ M @ X' @ post, (steps @ e1) @ ext, int a', int b',
                     (k + 1) + int (length M))
           \<and> a' \<le> length la \<and> b' \<le> length ra \<and> (a' = length la \<or> b' = length ra)
           \<and> M @ merge_lists key (drop a' la) (drop b' ra)
               = merge_lists key (drop (Suc a) la) (drop b ra)
           \<and> length X' = (length la - a') + (length ra - b')"
        by (rule less.hyps) (use True less.prems X in auto)
      then obtain a' b' M X' ext where r:
        "merge_loop key str (pre @ (D @ [la ! a]) @ X1 @ post) (steps @ e1) la ra left mid right
               (int (Suc a)) (int b) (k + 1)
             = Some (pre @ (D @ [la ! a]) @ M @ X' @ post, (steps @ e1) @ ext, int a', int b',
                     (k + 1) + int (length M))"
        "a' \<le> length la" "b' \<le> length ra" "a' = length la \<or> b' = length ra"
        "M @ merge_lists key (drop a' la) (drop b' ra)
               = merge_lists key (drop (Suc a) la) (drop b ra)"
        "length X' = (length la - a') + (length ra - b')" by blast
      have "merge_loop key str ?arr steps la ra left mid right (int a) (int b) k
             = Some (pre @ D @ (la ! a # M) @ X' @ post, steps @ (e1 @ ext), int a', int b',
                     k + int (length (la ! a # M)))"
        using e1 r(1) by (simp add: add.commute)
      moreover have "(la ! a # M) @ merge_lists key (drop a' la) (drop b' ra)
               = merge_lists key (drop a la) (drop b ra)"
        using r(5) le by (simp add: dl dr)
      ultimately show ?thesis using r(2,3,4,6) by blast
    next
      case gt: False
      have st: "py_set ?arr k (ra ! b) = Some (pre @ (D @ [ra ! b]) @ X1 @ post)"
        using py_set_append[of k "pre @ D" x "X1 @ post" "ra ! b"] less.prems(4) X by simp
      from merge_loop_right[OF ia ib gl gr gt st] obtain e1 where
        e1: "merge_loop key str ?arr steps la ra left mid right (int a) (int b) k =
             merge_loop key str (pre @ (D @ [ra ! b]) @ X1 @ post) (steps @ e1) la ra left mid right
               (int a) (int b + 1) (k + 1)" by blast
      have "\<exists>a' b' M X' ext.
           merge_loop key str (pre @ (D @ [ra ! b]) @ X1 @ post) (steps @ e1) la ra left mid right
               (int a) (int (Suc b)) (k + 1)
             = Some (pre @ (D @ [ra ! b]) @ M @ X' @ post, (steps @ e1) @ ext, int a', int b',
                     (k + 1) + int (length M))
           \<and> a' \<le> length la \<and> b' \<le> length ra \<and> (a' = length la \<or> b' = length ra)
           \<and> M @ merge_lists key (drop a' la) (drop b' ra)
               = merge_lists key (drop a la) (drop (Suc b) ra)
           \<and> length X' = (length la - a') + (length ra - b')"
        by (rule less.hyps) (use True less.prems X in auto)
      then obtain a' b' M X' ext where r:
        "merge_loop key str (pre @ (D @ [ra ! b]) @ X1 @ post) (steps @ e1) la ra left mid right
               (int a) (int (Suc b)) (k + 1)
             = Some (pre @ (D @ [ra ! b]) @ M @ X' @ post, (steps @ e1) @ ext, int a', int b',
                     (k + 1) + int (length M))"
        "a' \<le> length la" "b' \<le> length ra" "a' = length la \<or> b' = length ra"
        "M @ merge_lists key (drop a' la) (drop b' ra)
               = merge_lists key (drop a la) (drop (Suc b) ra)"
        "length X' = (length la - a') + (length ra - b')" by blast
      have "merge_loop key str ?arr steps la ra left mid right (int a) (int b) k
             = Some (pre @ D @ (ra ! b # M) @ X' @ post, steps @ (e1 @ ext), int a', int b',
                     k + int (length (ra ! b # M)))"
        using e1 r(1) by (simp add: add.commute)
      moreover have "(ra ! b # M) @ merge_lists key (drop a' la) (drop b' ra)
               = merge_lists key (drop a la) (drop b ra)"
        using r(5) gt by (simp add: dl dr)
      ultimately show ?thesis using r(2,3,4,6) by blast
    qed
  qed
qed

lemma copy_remaining_correct:
  assumes "a \<le> length src" and "length X = length src - a"
    and "k = int (length pre) + int (length D)"
  shows "\<exists>ext i'.
           copy_remaining str side (pre @ D @ X @ post) steps src left right (int a) k
             = Some (pre @ D @ drop a src @ post, steps @ ext, i', k + int (length src - a))"
  using assms
proof (induction X arbitrary: a D steps k)
  case Nil
  then have "\<not> int a < int (length src)" by simp
  from copy_remaining_done[OF this] Nil show ?case by auto
next
  case (Cons x X)
  then have lt: "a < length src" by simp
  have g: "py_get src (int a) = Some (src ! a)" using lt by (simp add: py_get_nat)
  have st: "py_set (pre @ D @ (x # X) @ post) k (src ! a) = Some (pre @ (D @ [src ! a]) @ X @ post)"
    using py_set_append[of k "pre @ D" x "X @ post" "src ! a"] Cons.prems(3) by simp
  have ia: "int a < int (length src)" using lt by simp
  from copy_remaining_step[OF ia g st] obtain e1 where
    e1: "copy_remaining str side (pre @ D @ (x # X) @ post) steps src left right (int a) k =
         copy_remaining str side (pre @ (D @ [src ! a]) @ X @ post) (steps @ e1) src left right
           (int a + 1) (k + 1)" by blast
  have "\<exists>ext i'.
           copy_remaining str side (pre @ (D @ [src ! a]) @ X @ post) (steps @ e1) src left right
             (int (Suc a)) (k + 1)
             = Some (pre @ (D @ [src ! a]) @ drop (Suc a) src @ post, (steps @ e1) @ ext, i',
                     (k + 1) + int (length src - Suc a))"
    by (rule Cons.IH) (use lt Cons.prems in auto)
  then obtain ext i' where
    "copy_remaining str side (pre @ (D @ [src ! a]) @ X @ post) (steps @ e1) src left right
             (int (Suc a)) (k + 1)
             = Some (pre @ (D @ [src ! a]) @ drop (Suc a) src @ post, steps @ (e1 @ ext), i',
                     (k + 1) + int (length src - Suc a))" by auto
  moreover have "drop a src = src ! a # drop (Suc a) src" using lt by (simp add: Cons_nth_drop_Suc)
  moreover have "k + 1 + int (length src - Suc a) = k + int (length src - a)" using lt by simp
  ultimately show ?case using e1 by (simp add: add.commute)
qed


lemma ms_merge_correct:
  assumes "left = int (length pre)" and "mid = int (length pre) + int (length L) - 1"
    and "right = int (length pre) + int (length L) + int (length R) - 1"
  shows "\<exists>ext. ms_merge key str (pre @ L @ R @ post) steps left mid right
                 = Some (pre @ merge_lists key L R @ post, steps @ ext)"
proof -
  let ?arr = "pre @ L @ R @ post"
  have sl: "py_slice ?arr left (mid + 1) = L"
    using py_slice_append[of left pre "mid + 1" L "R @ post"] assms by simp
  have sr: "py_slice ?arr (mid + 1) (right + 1) = R"
    using py_slice_append[of "mid + 1" "pre @ L" "right + 1" R post] assms by simp
  let ?steps1 = "ms_add_step steps ?arr (Some (left, mid)) (Some (mid + 1, right)) None []
                   (''Created temp arrays: Left'' @ str_list str L @ '', Right'' @ str_list str R)"
  obtain e1 where e1: "?steps1 = steps @ e1" by (simp add: ms_add_step_def)
  have "\<exists>a' b' M X' ext.
           merge_loop key str (pre @ [] @ (L @ R) @ post) ?steps1 L R left mid right (int 0) (int 0) left
             = Some (pre @ [] @ M @ X' @ post, ?steps1 @ ext, int a', int b', left + int (length M))
           \<and> a' \<le> length L \<and> b' \<le> length R \<and> (a' = length L \<or> b' = length R)
           \<and> M @ merge_lists key (drop a' L) (drop b' R) = merge_lists key (drop 0 L) (drop 0 R)
           \<and> length X' = (length L - a') + (length R - b')"
    by (rule merge_loop_correct) (use assms in auto)
  then obtain a' b' M X' e2 where
    loop: "merge_loop key str ?arr ?steps1 L R left mid right 0 0 left
             = Some (pre @ M @ X' @ post, ?steps1 @ e2, int a', int b', left + int (length M))"
    and a': "a' \<le> length L" and b': "b' \<le> length R" and ex: "a' = length L \<or> b' = length R"
    and M: "M @ merge_lists key (drop a' L) (drop b' R) = merge_lists key L R"
    and X': "length X' = (length L - a') + (length R - b')" by auto
  let ?X1 = "take (length L - a') X'" and ?X2 = "drop (length L - a') X'"
  have X1: "length ?X1 = length L - a'" and X2: "length ?X2 = length R - b'" using X' by simp_all
  have "\<exists>ext i'.
           copy_remaining str ''left'' (pre @ M @ ?X1 @ (?X2 @ post)) (?steps1 @ e2) L left right
             (int a') (left + int (length M))
             = Some (pre @ M @ drop a' L @ (?X2 @ post), (?steps1 @ e2) @ ext, i',
                     (left + int (length M)) + int (length L - a'))"
    by (rule copy_remaining_correct) (use a' X1 assms in auto)
  then obtain e3 i' where
    cl: "copy_remaining str ''left'' (pre @ M @ X' @ post) (?steps1 @ e2) L left right
             (int a') (left + int (length M))
             = Some (pre @ M @ drop a' L @ ?X2 @ post, ?steps1 @ e2 @ e3, i',
                     left + int (length M) + int (length L - a'))"
    using append_take_drop_id[of "length L - a'" X'] by (metis append.assoc)
  have "\<exists>ext j'.
           copy_remaining str ''right'' (pre @ (M @ drop a' L) @ ?X2 @ post) (?steps1 @ e2 @ e3)
             R left right (int b') (left + int (length M) + int (length L - a'))
             = Some (pre @ (M @ drop a' L) @ drop b' R @ post, (?steps1 @ e2 @ e3) @ ext, j',
                     (left + int (length M) + int (length L - a')) + int (length R - b'))"
    by (rule copy_remaining_correct) (use b' a' X2 assms in auto)
  then obtain e4 j' where
    cr: "copy_remaining str ''right'' (pre @ M @ drop a' L @ ?X2 @ post) (?steps1 @ e2 @ e3)
             R left right (int b') (left + int (length M) + int (length L - a'))
             = Some (pre @ M @ drop a' L @ drop b' R @ post, ?steps1 @ e2 @ e3 @ e4, j',
                     left + int (length M) + int (length L - a') + int (length R - b'))"
    by auto
  have "merge_lists key (drop a' L) (drop b' R) = drop a' L @ drop b' R"
    using ex by auto
  with M have fin: "M @ drop a' L @ drop b' R = merge_lists key L R" by simp
  have "\<exists>e. ms_merge key str ?arr steps left mid right
             = Some (pre @ M @ drop a' L @ drop b' R @ post, steps @ e)"
    unfolding ms_merge_def Let_def sl sr using loop cl cr e1
    by (simp add: ms_add_step_def)
  then show ?thesis using fin by (metis append.assoc)
qed


lemma merge_sort_recursive_correct:
  assumes "left = int (length pre)" and "right = int (length pre) + int (length seg) - 1"
  shows "\<exists>seg' ext.
           merge_sort_recursive key str (pre @ seg @ post) steps left right
             = Some (pre @ seg' @ post, steps @ ext)
           \<and> sorted (map key seg') \<and> mset seg' = mset seg
           \<and> (\<forall>c. filter (\<lambda>x. key x = c) seg' = filter (\<lambda>x. key x = c) seg)"
  using assms
proof (induction "length seg" arbitrary: seg pre post steps left right rule: less_induct)
  case less
  let ?arr = "pre @ seg @ post"
  show ?case
  proof (cases "length seg \<le> 1")
    case True
    then have "\<not> left < right" using less.prems by simp
    then have "merge_sort_recursive key str ?arr steps left right = Some (pre @ seg @ post, steps @ [])"
      by (subst merge_sort_recursive.simps) simp
    moreover have "sorted (map key seg)" using True by (cases seg) (auto simp: le_Suc_eq)
    ultimately show ?thesis by blast
  next
    case False
    then have lt: "left < right" using less.prems by simp
    define m where "m = (length seg - 1) div 2 + 1"
    have m: "0 < m" "m < length seg" using False by (auto simp: m_def)
    let ?mid = "(left + right) div 2"
    have mid: "?mid = int (length pre) + int m - 1"
      using False less.prems by (simp add: m_def)
    define L R where "L = take m seg" and "R = drop m seg"
    have seg: "seg = L @ R" and lenL: "length L = m" and lenR: "length R = length seg - m"
      using m by (simp_all add: L_def R_def)
    let ?steps2 = "ms_add_step
         (ms_add_step steps ?arr (Some (left, ?mid)) (Some (?mid + 1, right)) None []
            (''Dividing array: Left['' @ str_int left @ '':'' @ str_int ?mid
               @ ''], Right['' @ str_int (?mid + 1) @ '':'' @ str_int right @ '']''))
         ?arr (Some (left, ?mid)) None None []
         (''Sorting left subarray: ['' @ str_int left @ '':'' @ str_int ?mid @ '']'')"
    obtain e1 where e1: "?steps2 = steps @ e1" by (simp add: ms_add_step_def)
    have "\<exists>seg' ext.
           merge_sort_recursive key str (pre @ L @ (R @ post)) ?steps2 left ?mid
             = Some (pre @ seg' @ (R @ post), ?steps2 @ ext)
           \<and> sorted (map key seg') \<and> mset seg' = mset L
           \<and> (\<forall>c. filter (\<lambda>x. key x = c) seg' = filter (\<lambda>x. key x = c) L)"
      by (rule less.hyps) (use m lenL mid less.prems in auto)
    then obtain L' e2 where
      left: "merge_sort_recursive key str ?arr ?steps2 left ?mid
               = Some (pre @ L' @ R @ post, ?steps2 @ e2)"
      and L': "sorted (map key L')" "mset L' = mset L"
         "\<forall>c. filter (\<lambda>x. key x = c) L' = filter (\<lambda>x. key x = c) L"
      by (auto simp: seg)
    from L'(2) have "size (mset L') = size (mset L)" by simp
    then have lenL': "length L' = m" using lenL by simp
    let ?steps4 = "ms_add_step (?steps2 @ e2) (pre @ L' @ R @ post) None (Some (?mid + 1, right)) None []
         (''Sorting right subarray: ['' @ str_int (?mid + 1) @ '':'' @ str_int right @ '']'')"
    obtain e3 where e3: "?steps4 = steps @ e3" using e1 by (simp add: ms_add_step_def)
    have "\<exists>seg' ext.
           merge_sort_recursive key str ((pre @ L') @ R @ post) ?steps4 (?mid + 1) right
             = Some ((pre @ L') @ seg' @ post, ?steps4 @ ext)
           \<and> sorted (map key seg') \<and> mset seg' = mset R
           \<and> (\<forall>c. filter (\<lambda>x. key x = c) seg' = filter (\<lambda>x. key x = c) R)"
      by (rule less.hyps) (use m lenL' lenR mid less.prems in auto)
    then obtain R' e4 where
      right: "merge_sort_recursive key str (pre @ L' @ R @ post) ?steps4 (?mid + 1) right
               = Some (pre @ L' @ R' @ post, ?steps4 @ e4)"
      and R': "sorted (map key R')" "mset R' = mset R"
         "\<forall>c. filter (\<lambda>x. key x = c) R' = filter (\<lambda>x. key x = c) R"
      by auto
    from R'(2) have "size (mset R') = size (mset R)" by simp
    then have lenR': "length R' = length seg - m" using lenR by simp
    let ?steps6 = "ms_add_step (?steps4 @ e4) (pre @ L' @ R' @ post) (Some (left, ?mid))
         (Some (?mid + 1, right)) None []
         (''Merging sorted subarrays: ['' @ str_int left @ '':'' @ str_int ?mid
            @ ''] and ['' @ str_int (?mid + 1) @ '':'' @ str_int right @ '']'')"
    obtain e5 where e5: "?steps6 = steps @ e5" using e3 by (simp add: ms_add_step_def)
    have "\<exists>ext. ms_merge key str (pre @ L' @ R' @ post) ?steps6 left ?mid right
                 = Some (pre @ merge_lists key L' R' @ post, ?steps6 @ ext)"
      by (rule ms_merge_correct) (use m lenL' lenR' mid less.prems in auto)
    then obtain e6 where
      mg: "ms_merge key str (pre @ L' @ R' @ post) ?steps6 left ?mid right
                 = Some (pre @ merge_lists key L' R' @ post, steps @ e5 @ e6)"
      using e5 by auto
    have run: "merge_sort_recursive key str ?arr steps left right
                 = Some (pre @ merge_lists key L' R' @ post, steps @ (e5 @ e6))"
      using lt left right mg
      by (subst merge_sort_recursive.simps) (simp add: Let_def)
    have "sorted (map key (merge_lists key L' R'))"
      using L'(1) R'(1) by (rule sorted_merge_lists)
    moreover have "mset (merge_lists key L' R') = mset seg"
      using L'(2) R'(2) by (simp add: mset_merge_lists seg)
    moreover have "\<forall>c. filter (\<lambda>x. key x = c) (merge_lists key L' R') = filter (\<lambda>x. key x = c) seg"
      using L'(1,3) R'(1,3) by (simp add: filter_merge_lists seg)
    ultimately show ?thesis using run by blast
  qed
qed

lemma ms_sort_algorithm_correct:
  "\<exists>arr' ext.
     ms_sort_algorithm key str arr [] = Some (arr', \<lparr>array = arr, description = ''Initial state - Merge Sort algorithm starting'', left_subarray = None, right_subarray = None, merging_range = None, ms_comparing_indices = []\<rparr> # ext @ [\<lparr>array = arr', description = ''Merge Sort completed! Array is now fully sorted'', left_subarray = None, right_subarray = None, merging_range = None, ms_comparing_indices = []\<rparr>])
     \<and> sorted (map key arr') \<and> mset arr' = mset arr
     \<and> (\<forall>c. filter (\<lambda>x. key x = c) arr' = filter (\<lambda>x. key x = c) arr)"
proof -
  let ?s1 = "ms_add_step [] arr None None None [] ''Initial state - Merge Sort algorithm starting''"
  have "\<exists>seg' ext.
           merge_sort_recursive key str ([] @ arr @ []) ?s1 0 (int (length arr) - 1)
             = Some ([] @ seg' @ [], ?s1 @ ext)
           \<and> sorted (map key seg') \<and> mset seg' = mset arr
           \<and> (\<forall>c. filter (\<lambda>x. key x = c) seg' = filter (\<lambda>x. key x = c) arr)"
    by (rule merge_sort_recursive_correct) auto
  then obtain arr' ext where
    r: "merge_sort_recursive key str arr ?s1 0 (int (length arr) - 1) = Some (arr', ?s1 @ ext)"
    and p: "sorted (map key arr')" "mset arr' = mset arr"
      "\<forall>c. filter (\<lambda>x. key x = c) arr' = filter (\<lambda>x. key x = c) arr" by auto
  from r have "ms_sort_algorithm key str arr [] = Some (arr', \<lparr>array = arr, description = ''Initial state - Merge Sort algorithm starting'', left_subarray = None, right_subarray = None, merging_range = None, ms_comparing_indices = []\<rparr> # ext @ [\<lparr>array = arr', description = ''Merge Sort completed! Array is now fully sorted'', left_subarray = None, right_subarray = None, merging_range = None, ms_comparing_indices = []\<rparr>])"
    by (simp add: ms_sort_algorithm_def ms_add_step_def)
  with p show ?thesis by blast
qed


section \<open>Selection sort engine\<close>

record ss_step = "int step" +
  current_position :: int
  minimum_index :: int
  comparing_index :: int
  sorted_indices :: "int list"

text \<open>
  \<open>SelectionSortAlgorithm.add_step\<close>; the defaults (\<open>-1\<close> for the three indices,
  \<open>sorted_indices=None\<close> stored as \<open>[]\<close>) are passed explicitly by the callers.
\<close>

definition ss_add_step ::
  "ss_step list \<Rightarrow> int list \<Rightarrow> int \<Rightarrow> int \<Rightarrow> int \<Rightarrow> int list \<Rightarrow> string \<Rightarrow> ss_step list" where
  "ss_add_step steps arr cur mi ci si desc =
     steps @ [\<lparr>array = arr, description = desc, current_position = cur, minimum_index = mi,
               comparing_index = ci, sorted_indices = si\<rparr>]"

text \<open>
  The inner loop \<open>for j in range(i + 1, n)\<close>, from the current \<open>j\<close>; it reads the array
  and returns the steps and \<open>min_idx\<close>.
\<close>

function ss_inner ::
  "int list \<Rightarrow> ss_step list \<Rightarrow> int list \<Rightarrow> int \<Rightarrow> int \<Rightarrow> int \<Rightarrow> int
     \<Rightarrow> (ss_step list \<times> int) option" where
  "ss_inner arr steps sorted_idx i n min_idx j =
     (if j < n then
        do { aj \<leftarrow> py_get arr j;
             amin \<leftarrow> py_get arr min_idx;
             let steps1 = ss_add_step steps arr i min_idx j sorted_idx
                            (''Comparing: '' @ str_int aj @ '' (position '' @ str_int j
                               @ '') with current minimum '' @ str_int amin);
             if aj < amin then
               do { aj' \<leftarrow> py_get arr j;
                    let steps2 = ss_add_step steps1 arr i j j sorted_idx
                                   (''New minimum found! '' @ str_int aj' @ '' at position ''
                                      @ str_int j);
                    ss_inner arr steps2 sorted_idx i n j (j + 1) }
             else ss_inner arr steps1 sorted_idx i n min_idx (j + 1) }
      else Some (steps, min_idx))"
  by pat_completeness auto
termination
  by (relation "measure (\<lambda>(arr, steps, sorted_idx, i, n, min_idx, j). nat (n - j))") auto

declare ss_inner.simps [simp del]

text \<open>
  The outer loop \<open>for i in range(n)\<close>, from the current \<open>i\<close>; it returns the array, the
  steps and the sorted indices.
\<close>

function ss_outer ::
  "int list \<Rightarrow> ss_step list \<Rightarrow> int list \<Rightarrow> int \<Rightarrow> int
     \<Rightarrow> (int list \<times> ss_step list \<times> int list) option" where
  "ss_outer arr steps sorted_idx i n =
     (if i < n then
        do { let min_idx0 = i;
             let steps1 = ss_add_step steps arr i min_idx0 (-1) sorted_idx
                            (''Round '' @ str_int (i + 1)
                               @ '': Looking for minimum in unsorted part [position ''
                               @ str_int i @ '' to '' @ str_int (n - 1) @ '']'');
             ai \<leftarrow> py_get arr i;
             let steps2 = ss_add_step steps1 arr i min_idx0 (-1) sorted_idx
                            (''Assume element at position '' @ str_int i @ '' ('' @ str_int ai
                               @ '') is minimum'');
             (steps3, min_idx) \<leftarrow> ss_inner arr steps2 sorted_idx i n min_idx0 (i + 1);
             (arr1, steps4) \<leftarrow>
               (if min_idx \<noteq> i then
                  do { ai' \<leftarrow> py_get arr i;
                       am \<leftarrow> py_get arr min_idx;
                       let steps' = ss_add_step steps3 arr i min_idx (-1) sorted_idx
                                      (''Swapping: '' @ str_int ai' @ '' (position '' @ str_int i
                                         @ '') with '' @ str_int am @ '' (position ''
                                         @ str_int min_idx @ '')'');
                       arr' \<leftarrow> py_swap arr i min_idx;
                       ai'' \<leftarrow> py_get arr' i;
                       Some (arr', ss_add_step steps' arr' i (-1) (-1) sorted_idx
                                     (''Swap completed: '' @ str_int ai'' @ '' is now in position ''
                                        @ str_int i)) }
                else
                  do { ai' \<leftarrow> py_get arr i;
                       Some (arr, ss_add_step steps3 arr i (-1) (-1) sorted_idx
                                    (''No swap needed: '' @ str_int ai'
                                       @ '' is already the minimum'')) });
             let sorted_idx1 = sorted_idx @ [i];
             ai1 \<leftarrow> py_get arr1 i;
             let steps5 = ss_add_step steps4 arr1 (-1) (-1) (-1) sorted_idx1
                            (''Position '' @ str_int i @ '' is now sorted. Element ''
                               @ str_int ai1 @ '' is in correct place'');
             ss_outer arr1 steps5 sorted_idx1 (i + 1) n }
      else Some (arr, steps, sorted_idx))"
  by pat_completeness auto
termination
  by (relation "measure (\<lambda>(arr, steps, sorted_idx, i, n). nat (n - i))") auto

declare ss_outer.simps [simp del]

text \<open>
  \<open>SelectionSortAlgorithm.sort_algorithm\<close>, on the steps recorded so far;
  \<open>list(range(n))\<close> is \<open>[0..n - 1]\<close>.
\<close>

definition ss_sort_algorithm ::
  "int list \<Rightarrow> ss_step list \<Rightarrow> (int list \<times> ss_step list) option" where
  "ss_sort_algorithm arr steps =
     do { let n = int (length arr);
          let steps1 = ss_add_step steps arr (-1) (-1) (-1) []
                         ''Initial state - Selection Sort algorithm starting'';
          (arr1, steps2, sorted_idx) \<leftarrow> ss_outer arr steps1 [] 0 n;
          let steps3 = ss_add_step steps2 arr1 (-1) (-1) (-1) [0..n - 1]
                         ''Selection Sort completed! All elements are now sorted'';
          Some (arr1, steps3) }"

definition ss_steps :: "int list \<Rightarrow> ss_step list option" where
  "ss_steps arr = map_option snd (ss_sort_algorithm arr [])"

subsection \<open>Correctness of the selection sort engine\<close>

lemma ss_inner_done:
  "\<not> j < n \<Longrightarrow> ss_inner arr steps si i n min_idx j = Some (steps, min_idx)"
  by (subst ss_inner.simps) simp

lemma ss_inner_less:
  "j < n \<Longrightarrow> py_get arr j = Some aj \<Longrightarrow> py_get arr min_idx = Some amin \<Longrightarrow> aj < amin \<Longrightarrow>
   \<exists>ext. ss_inner arr steps si i n min_idx j = ss_inner arr (steps @ ext) si i n j (j + 1)"
  by (subst ss_inner.simps) (simp add: ss_add_step_def Let_def, rule exI, rule refl)

lemma ss_inner_not_less:
  "j < n \<Longrightarrow> py_get arr j = Some aj \<Longrightarrow> py_get arr min_idx = Some amin \<Longrightarrow> \<not> aj < amin \<Longrightarrow>
   \<exists>ext. ss_inner arr steps si i n min_idx j = ss_inner arr (steps @ ext) si i n min_idx (j + 1)"
  by (subst ss_inner.simps) (simp add: ss_add_step_def Let_def, rule exI, rule refl)

lemma ss_inner_correct:
  assumes "a \<le> mi" and "mi < b" and "b \<le> length arr" and "n = int (length arr)"
    and "\<forall>k. a \<le> k \<and> k < b \<longrightarrow> arr ! mi \<le> arr ! k"
  shows "\<exists>ext m. ss_inner arr steps si i n (int mi) (int b) = Some (steps @ ext, int m)
           \<and> a \<le> m \<and> m < length arr \<and> (\<forall>k. a \<le> k \<and> k < length arr \<longrightarrow> arr ! m \<le> arr ! k)"
  using assms
proof (induction "length arr - b" arbitrary: mi b steps)
  case 0
  then have "b = length arr" by simp
  with 0 have "ss_inner arr steps si i n (int mi) (int b) = Some (steps @ [], int mi)"
    by (simp add: ss_inner_done)
  with 0 \<open>b = length arr\<close> show ?case by blast
next
  case (Suc d)
  then have lt: "b < length arr" by simp
  have jn: "int b < n" using lt Suc.prems by simp
  have gj: "py_get arr (int b) = Some (arr ! b)" using lt by (simp add: py_get_nat)
  have gm: "py_get arr (int mi) = Some (arr ! mi)" using lt Suc.prems by (simp add: py_get_nat)
  show ?case
  proof (cases "arr ! b < arr ! mi")
    case True
    from ss_inner_less[OF jn gj gm True] obtain e1 where
      e1: "ss_inner arr steps si i n (int mi) (int b)
             = ss_inner arr (steps @ e1) si i n (int b) (int b + 1)" by blast
    have "\<exists>ext m. ss_inner arr (steps @ e1) si i n (int b) (int (Suc b)) = Some ((steps @ e1) @ ext, int m)
           \<and> a \<le> m \<and> m < length arr \<and> (\<forall>k. a \<le> k \<and> k < length arr \<longrightarrow> arr ! m \<le> arr ! k)"
    proof (rule Suc.hyps(1))
      show "d = length arr - Suc b" using Suc.hyps(2) by simp
      show "a \<le> b" using Suc.prems by simp
      show "b < Suc b" by simp
      show "Suc b \<le> length arr" using lt by simp
      show "n = int (length arr)" by (rule Suc.prems)
      show "\<forall>k. a \<le> k \<and> k < Suc b \<longrightarrow> arr ! b \<le> arr ! k"
        using Suc.prems(5) True by (auto simp: less_Suc_eq)
    qed
    then show ?thesis using e1 by (auto simp: add.commute)
  next
    case False
    from ss_inner_not_less[OF jn gj gm False] obtain e1 where
      e1: "ss_inner arr steps si i n (int mi) (int b)
             = ss_inner arr (steps @ e1) si i n (int mi) (int b + 1)" by blast
    have "\<exists>ext m. ss_inner arr (steps @ e1) si i n (int mi) (int (Suc b)) = Some ((steps @ e1) @ ext, int m)
           \<and> a \<le> m \<and> m < length arr \<and> (\<forall>k. a \<le> k \<and> k < length arr \<longrightarrow> arr ! m \<le> arr ! k)"
    proof (rule Suc.hyps(1))
      show "d = length arr - Suc b" using Suc.hyps(2) by simp
      show "a \<le> mi" using Suc.prems by simp
      show "mi < Suc b" using Suc.prems by simp
      show "Suc b \<le> length arr" using lt by simp
      show "n = int (length arr)" by (rule Suc.prems)
      show "\<forall>k. a \<le> k \<and> k < Suc b \<longrightarrow> arr ! mi \<le> arr ! k"
        using Suc.prems(5) False by (auto simp: less_Suc_eq)
    qed
    then show ?thesis using e1 by (auto simp: add.commute)
  qed
qed

lemma ss_outer_done:
  "\<not> i < n \<Longrightarrow> ss_outer arr steps si i n = Some (arr, steps, si)"
  by (subst ss_outer.simps) simp

lemma ss_outer_step:
  assumes "a < length arr" and "n = int (length arr)"
    and inner: "\<And>st. \<exists>ext m. ss_inner arr st si (int a) n (int a) (int a + 1) = Some (st @ ext, int m)
                          \<and> P m"
    and P: "\<And>m. P m \<Longrightarrow> m < length arr"
  shows "\<exists>ext m. P m \<and> ss_outer arr steps si (int a) n
           = ss_outer (arr[a := arr ! m, m := arr ! a]) (steps @ ext) (si @ [int a]) (int a + 1) n"
proof -
  let ?steps2 = "ss_add_step
         (ss_add_step steps arr (int a) (int a) (-1) si
            (''Round '' @ str_int (int a + 1)
               @ '': Looking for minimum in unsorted part [position ''
               @ str_int (int a) @ '' to '' @ str_int (n - 1) @ '']''))
         arr (int a) (int a) (-1) si
         (''Assume element at position '' @ str_int (int a) @ '' ('' @ str_int (arr ! a)
            @ '') is minimum'')"
  from inner[of ?steps2] obtain e1 m where
    e1: "ss_inner arr ?steps2 si (int a) n (int a) (int a + 1) = Some (?steps2 @ e1, int m)"
    and Pm: "P m" by blast
  have m: "m < length arr" using Pm by (rule P)
  have ga: "py_get arr (int a) = Some (arr ! a)" and gm: "py_get arr (int m) = Some (arr ! m)"
    using assms(1) m by (simp_all add: py_get_nat)
  have sw: "py_swap arr (int a) (int m) = Some (arr[a := arr ! m, m := arr ! a])"
    using assms(1) m by (simp add: py_swap_nat)
  have ga': "py_get (arr[a := arr ! m, m := arr ! a]) (int a)
               = Some ((arr[a := arr ! m, m := arr ! a]) ! a)"
    using assms(1) by (simp add: py_get_nat)
  have lt: "int a < n" using assms by simp
  have "\<exists>ext. ss_outer arr steps si (int a) n
           = ss_outer (arr[a := arr ! m, m := arr ! a]) (steps @ ext) (si @ [int a]) (int a + 1) n"
  proof (cases "m = a")
    case True
    show ?thesis
      apply (subst ss_outer.simps)
      using lt ga e1 True
      apply (simp add: Let_def ss_add_step_def)
      apply (rule exI, rule refl)
      done
  next
    case False
    show ?thesis
      apply (subst ss_outer.simps)
      using lt ga gm e1 sw ga' False
      apply (simp add: Let_def ss_add_step_def)
      apply (rule exI, rule refl)
      done
  qed
  with Pm show ?thesis by blast
qed

lemma ss_outer_correct:
  assumes "a \<le> length arr" and "n = int (length arr)"
    and "\<forall>k l. k < l \<and> l < length arr \<and> k < a \<longrightarrow> arr ! k \<le> arr ! l"
  shows "\<exists>arr' ext si'. ss_outer arr steps si (int a) n = Some (arr', steps @ ext, si')
           \<and> sorted arr' \<and> mset arr' = mset arr"
  using assms
proof (induction "length arr - a" arbitrary: arr steps si a)
  case 0
  then have a: "a = length arr" by simp
  then have "ss_outer arr steps si (int a) n = Some (arr, steps @ [], si)"
    using 0 by (simp add: ss_outer_done)
  moreover have "sorted arr"
    using 0(4) a by (simp add: sorted_iff_nth_mono_less)
  ultimately show ?case by blast
next
  case (Suc d)
  then have lt: "a < length arr" by simp
  let ?P = "\<lambda>m. a \<le> m \<and> m < length arr \<and> (\<forall>k. a \<le> k \<and> k < length arr \<longrightarrow> arr ! m \<le> arr ! k)"
  have inner: "\<And>st. \<exists>ext m. ss_inner arr st si (int a) n (int a) (int a + 1) = Some (st @ ext, int m)
           \<and> ?P m"
  proof -
    fix st
    have "\<exists>ext m. ss_inner arr st si (int a) n (int a) (int (Suc a)) = Some (st @ ext, int m)
           \<and> a \<le> m \<and> m < length arr \<and> (\<forall>k. a \<le> k \<and> k < length arr \<longrightarrow> arr ! m \<le> arr ! k)"
      by (rule ss_inner_correct) (use lt Suc.prems in \<open>auto simp: le_less_Suc_eq\<close>)
    then show "\<exists>ext m. ss_inner arr st si (int a) n (int a) (int a + 1) = Some (st @ ext, int m)
           \<and> ?P m" by (simp add: add.commute)
  qed
  from ss_outer_step[where P = ?P, OF lt Suc.prems(2) inner, of steps] obtain e1 m where
    m: "a \<le> m" "m < length arr" "\<forall>k. a \<le> k \<and> k < length arr \<longrightarrow> arr ! m \<le> arr ! k"
    and step: "ss_outer arr steps si (int a) n
           = ss_outer (arr[a := arr ! m, m := arr ! a]) (steps @ e1) (si @ [int a]) (int a + 1) n"
    by blast
  let ?arr1 = "arr[a := arr ! m, m := arr ! a]"
  have len1: "length ?arr1 = length arr" by simp
  have ms1: "mset ?arr1 = mset arr" using lt m(2) by (simp add: mset_swap)
  have nth1: "\<And>k. k < length arr \<Longrightarrow>
     ?arr1 ! k = (if k = m then arr ! a else if k = a then arr ! m else arr ! k)"
    using lt m(2) by (auto simp: nth_list_update)
  have inv1: "\<forall>k l. k < l \<and> l < length ?arr1 \<and> k < Suc a \<longrightarrow> ?arr1 ! k \<le> ?arr1 ! l"
  proof (intro allI impI)
    fix k l assume h: "k < l \<and> l < length ?arr1 \<and> k < Suc a"
    then have kl: "k < l" "l < length arr" "k \<le> a" by auto
    show "?arr1 ! k \<le> ?arr1 ! l"
    proof (cases "k = a")
      case True
      then show ?thesis using kl m lt by (simp add: nth1)
    next
      case False
      then have ka: "k < a" using kl by simp
      then have "k \<noteq> m" using m(1) by simp
      then have "?arr1 ! k = arr ! k" using ka lt by (simp add: nth1)
      moreover have "arr ! k \<le> arr ! l" "arr ! k \<le> arr ! a" "arr ! k \<le> arr ! m"
        using Suc.prems(3) ka kl lt m by auto
      ultimately show ?thesis using kl by (simp add: nth1)
    qed
  qed
  have "\<exists>arr' ext si'. ss_outer ?arr1 (steps @ e1) (si @ [int a]) (int (Suc a)) n
           = Some (arr', (steps @ e1) @ ext, si') \<and> sorted arr' \<and> mset arr' = mset ?arr1"
  proof (rule Suc.hyps(1))
    show "d = length ?arr1 - Suc a" using Suc.hyps(2) by simp
    show "Suc a \<le> length ?arr1" using lt by simp
    show "n = int (length ?arr1)" using Suc.prems(2) by simp
    show "\<forall>k l. k < l \<and> l < length ?arr1 \<and> k < Suc a \<longrightarrow> ?arr1 ! k \<le> ?arr1 ! l" by (rule inv1)
  qed
  then obtain arr' ext si' where
    "ss_outer ?arr1 (steps @ e1) (si @ [int a]) (int a + 1) n = Some (arr', steps @ (e1 @ ext), si')"
    "sorted arr'" "mset arr' = mset ?arr1" by (auto simp: add.commute)
  with step ms1 show ?case by (metis)
qed

lemma ss_sort_algorithm_correct:
  "\<exists>arr' ext.
     ss_sort_algorithm arr [] =
       Some (arr', \<lparr>array = arr, description = ''Initial state - Selection Sort algorithm starting'',
                     current_position = -1, minimum_index = -1, comparing_index = -1,
                     sorted_indices = []\<rparr>
                   # ext @
                   [\<lparr>array = arr', description = ''Selection Sort completed! All elements are now sorted'',
                     current_position = -1, minimum_index = -1, comparing_index = -1,
                     sorted_indices = [0..int (length arr) - 1]\<rparr>])
     \<and> sorted arr' \<and> mset arr' = mset arr"
proof -
  let ?s1 = "ss_add_step [] arr (-1) (-1) (-1) [] ''Initial state - Selection Sort algorithm starting''"
  have "\<exists>arr' ext si'. ss_outer arr ?s1 [] (int 0) (int (length arr)) = Some (arr', ?s1 @ ext, si')
           \<and> sorted arr' \<and> mset arr' = mset arr"
    by (rule ss_outer_correct) auto
  then obtain arr' ext si' where
    r: "ss_outer arr ?s1 [] 0 (int (length arr)) = Some (arr', ?s1 @ ext, si')"
    and p: "sorted arr'" "mset arr' = mset arr" by auto
  from r have "ss_sort_algorithm arr [] =
       Some (arr', \<lparr>array = arr, description = ''Initial state - Selection Sort algorithm starting'',
                     current_position = -1, minimum_index = -1, comparing_index = -1,
                     sorted_indices = []\<rparr>
                   # ext @
                   [\<lparr>array = arr', description = ''Selection Sort completed! All elements are now sorted'',
                     current_position = -1, minimum_index = -1, comparing_index = -1,
                     sorted_indices = [0..int (length arr) - 1]\<rparr>])"
    by (simp add: ss_sort_algorithm_def ss_add_step_def Let_def)
  with p show ?thesis by blast
qed

section \<open>Playback controller\<close>

text \<open>
  The fields of \<open>SortingAlgorithmBase\<close> that playback uses. \<open>working_array\<close> is
  \<open>self.array\<close> and \<open>step_seq\<close> is \<open>self.steps\<close>; \<open>original_speed\<close> is the attribute
  that \<open>fast_sort\<close> creates and \<open>hasattr\<close> tests, \<open>None\<close> when it is absent. The widgets,
  the log and the clock are left out. The three engine classes override the playback
  methods with the same code, which is the code modelled here.
\<close>

record 'z controller =
  working_array :: "int list"
  original_array :: "int list"
  step_seq :: "(int, 'z) step_scheme list"
  current_step :: int
  is_sorting :: bool
  is_playing :: bool
  animation_speed :: int
  original_speed :: "int option"

text \<open>An engine's \<open>sort_algorithm\<close>: from the array and the steps so far.\<close>

type_synonym 'z engine =
  "int list \<Rightarrow> (int, 'z) step_scheme list \<Rightarrow> (int list \<times> (int, 'z) step_scheme list) option"

text \<open>
  The fields as \<open>SortingAlgorithmBase.__init__\<close> assigns them, before \<open>create_gui\<close>. The
  engine classes end \<open>create_gui\<close> with \<open>generate_new_array\<close>, which draws a random array
  and stores it as \<open>set_manual_array\<close> stores a given one; a session therefore starts from
  \<open>set_manual_array\<close> applied to this state.
\<close>

definition new_controller :: "'z controller" where
  "new_controller =
     \<lparr>working_array = [], original_array = [], step_seq = [], current_step = 0,
      is_sorting = False, is_playing = False, animation_speed = 1000, original_speed = None\<rparr>"

text \<open>
  \<open>set_manual_array\<close>; \<open>generate_random_array\<close> assigns the same four fields, from the
  array it draws.
\<close>

definition set_manual_array :: "'z controller \<Rightarrow> int list \<Rightarrow> 'z controller" where
  "set_manual_array c arr =
     c\<lparr>working_array := arr, original_array := arr, step_seq := [], current_step := 0\<rparr>"

text \<open>
  \<open>generate_steps\<close>: nothing happens on an empty array; otherwise the steps are emptied,
  the engine runs on a copy of the array and the sorted copy becomes the array.
\<close>

definition generate_steps :: "'z engine \<Rightarrow> 'z controller \<Rightarrow> 'z controller option" where
  "generate_steps sort_algorithm c =
     (if working_array c = [] then Some c
      else do { (temp_array, recorded) \<leftarrow> sort_algorithm (working_array c) [];
                Some (c\<lparr>step_seq := recorded, working_array := temp_array\<rparr>) })"

text \<open>\<open>show_current_step\<close>: the array becomes a copy of the snapshot under the cursor.\<close>

definition show_current_step :: "'z controller \<Rightarrow> 'z controller" where
  "show_current_step c =
     (if step_seq c \<noteq> [] \<and> 0 \<le> current_step c \<and> current_step c < int (length (step_seq c))
      then c\<lparr>working_array := array (step_seq c ! nat (current_step c))\<rparr>
      else c)"

text \<open>
  The block \<open>if hasattr(self, 'original_speed'): ...\<close> that \<open>pause_sorting\<close>,
  \<open>reset_sorting\<close> and \<open>animate_sorting\<close> share.
\<close>

definition restore_speed :: "'z controller \<Rightarrow> 'z controller" where
  "restore_speed c =
     (case original_speed c of
        None \<Rightarrow> c
      | Some v \<Rightarrow> c\<lparr>animation_speed := v, original_speed := None\<rparr>)"

text \<open>
  \<open>animate_sorting\<close>, one tick of continuous playback. It ends by asking the event loop
  to call it again after \<open>animation_speed\<close> milliseconds; the model has no timer, a later
  call is the command \<open>Tick\<close>, which may come at any time.
\<close>

definition animate_sorting :: "'z controller \<Rightarrow> 'z controller" where
  "animate_sorting c =
     (if \<not> is_playing c \<or> current_step c \<ge> int (length (step_seq c)) then
        (if current_step c \<ge> int (length (step_seq c))
         then restore_speed (c\<lparr>is_sorting := False\<rparr>)
         else c)
      else
        (let c1 = show_current_step c
         in c1\<lparr>current_step := current_step c1 + 1\<rparr>))"

definition start_sorting :: "'z engine \<Rightarrow> 'z controller \<Rightarrow> 'z controller option" where
  "start_sorting sort_algorithm c =
     (if is_sorting c then Some c
      else do { c1 \<leftarrow> (if step_seq c = [] then generate_steps sort_algorithm c else Some c);
                Some (animate_sorting (c1\<lparr>is_sorting := True, is_playing := True\<rparr>)) })"

definition fast_sort :: "'z engine \<Rightarrow> 'z controller \<Rightarrow> 'z controller option" where
  "fast_sort sort_algorithm c =
     (if is_sorting c then Some c
      else if working_array c = [] then Some c
      else do { c1 \<leftarrow> (if step_seq c = [] then generate_steps sort_algorithm c else Some c);
                let c2 = c1\<lparr>is_sorting := True, is_playing := True\<rparr>;
                let c3 = c2\<lparr>original_speed := Some (animation_speed c2), animation_speed := 50\<rparr>;
                Some (animate_sorting c3) })"

definition pause_sorting :: "'z controller \<Rightarrow> 'z controller" where
  "pause_sorting c = restore_speed (c\<lparr>is_playing := False\<rparr>)"

definition reset_sorting :: "'z controller \<Rightarrow> 'z controller" where
  "reset_sorting c =
     restore_speed
       (c\<lparr>is_sorting := False, is_playing := False, current_step := 0, step_seq := [],
          working_array := original_array c\<rparr>)"

definition step_forward :: "'z engine \<Rightarrow> 'z controller \<Rightarrow> 'z controller option" where
  "step_forward sort_algorithm c =
     do { c1 \<leftarrow> (if step_seq c = [] then generate_steps sort_algorithm c else Some c);
          if current_step c1 < int (length (step_seq c1)) - 1
          then Some (show_current_step (c1\<lparr>current_step := current_step c1 + 1\<rparr>))
          else Some c1 }"

definition step_backward :: "'z controller \<Rightarrow> 'z controller" where
  "step_backward c =
     (if current_step c > 0
      then show_current_step (c\<lparr>current_step := current_step c - 1\<rparr>)
      else c)"

text \<open>The navigation commands, and a run of them from a state.\<close>

datatype command = Start | FastStart | Pause | Reset | StepForward | StepBackward | Tick

fun exec :: "'z engine \<Rightarrow> command \<Rightarrow> 'z controller \<Rightarrow> 'z controller option" where
  "exec sa Start c = start_sorting sa c"
| "exec sa FastStart c = fast_sort sa c"
| "exec sa Pause c = Some (pause_sorting c)"
| "exec sa Reset c = Some (reset_sorting c)"
| "exec sa StepForward c = step_forward sa c"
| "exec sa StepBackward c = Some (step_backward c)"
| "exec sa Tick c = Some (animate_sorting c)"

fun run :: "'z engine \<Rightarrow> command list \<Rightarrow> 'z controller \<Rightarrow> 'z controller option" where
  "run sa [] c = Some c"
| "run sa (cmd # cmds) c = do { c1 \<leftarrow> exec sa cmd c; run sa cmds c1 }"


text \<open>
  The controllers of the three engine classes. The merge sort class sorts integers, so
  its engine is the merge sort engine with the identity key and \<open>str\<close> of an integer.
\<close>

type_synonym qs_controller = "unit qs_step_ext controller"
type_synonym ms_controller = "unit ms_step_ext controller"
type_synonym ss_controller = "unit ss_step_ext controller"

definition ms_sort_algorithm_int :: "unit ms_step_ext engine" where
  "ms_sort_algorithm_int = ms_sort_algorithm (\<lambda>x. x) str_int"

text \<open>Observers of a merge sort step, for the scenario on \<open>[5, 2, 8, 1, 9]\<close>.\<close>

definition ms_ranges :: "'a ms_step \<Rightarrow> (int \<times> int) option \<times> (int \<times> int) option" where
  "ms_ranges s = (left_subarray s, right_subarray s)"

definition ms_is_dividing :: "'a ms_step \<Rightarrow> bool" where
  "ms_is_dividing s = (take 15 (description s) = ''Dividing array:'')"

subsection \<open>What the commands preserve\<close>

lemma restore_speed_fields [simp]:
  "working_array (restore_speed c) = working_array c"
  "original_array (restore_speed c) = original_array c"
  "step_seq (restore_speed c) = step_seq c"
  "current_step (restore_speed c) = current_step c"
  by (simp_all add: restore_speed_def split: option.splits)

lemma show_current_step_fields [simp]:
  "original_array (show_current_step c) = original_array c"
  "step_seq (show_current_step c) = step_seq c"
  "current_step (show_current_step c) = current_step c"
  by (simp_all add: show_current_step_def)

lemma animate_sorting_fields [simp]:
  "original_array (animate_sorting c) = original_array c"
  "step_seq (animate_sorting c) = step_seq c"
  by (simp_all add: animate_sorting_def Let_def)

lemma animate_sorting_cursor:
  "0 \<le> current_step c \<Longrightarrow> current_step c \<le> int (length (step_seq c)) \<Longrightarrow>
   0 \<le> current_step (animate_sorting c)
     \<and> current_step (animate_sorting c) \<le> int (length (step_seq (animate_sorting c)))"
  by (simp add: animate_sorting_def Let_def)

lemma generate_steps_fields:
  "generate_steps sa c = Some c' \<Longrightarrow>
   original_array c' = original_array c \<and> current_step c' = current_step c"
  by (auto simp: generate_steps_def split: if_splits bind_splits)

lemma generate_steps_total:
  assumes "\<And>xs. \<exists>r. sa xs [] = Some r"
  shows "\<exists>c'. generate_steps sa c = Some c'"
proof -
  from assms[of "working_array c"] obtain t r where "sa (working_array c) [] = Some (t, r)"
    by (metis surj_pair)
  then show ?thesis by (simp add: generate_steps_def)
qed

lemma exec_total:
  assumes "\<And>xs. \<exists>r. sa xs [] = Some r"
  shows "\<exists>c'. exec sa cmd c = Some c'"
proof -
  from generate_steps_total[of sa c, OF assms] obtain g where g: "generate_steps sa c = Some g"
    by blast
  show ?thesis
    by (cases cmd) (simp_all add: start_sorting_def fast_sort_def step_forward_def g Let_def)
qed

lemma run_total:
  assumes "\<And>xs. \<exists>r. sa xs [] = Some r"
  shows "\<exists>c'. run sa cmds c = Some c'"
proof (induction cmds arbitrary: c)
  case Nil
  show ?case by simp
next
  case (Cons cmd cmds)
  from exec_total[of sa cmd c, OF assms] obtain c1 where "exec sa cmd c = Some c1" by blast
  with Cons[of c1] show ?case by simp
qed

lemma exec_original:
  "exec sa cmd c = Some c' \<Longrightarrow> original_array c' = original_array c"
  by (cases cmd)
     (auto simp: start_sorting_def fast_sort_def step_forward_def pause_sorting_def
        reset_sorting_def step_backward_def Let_def
        split: if_splits bind_splits dest: generate_steps_fields)

lemma run_original:
  "run sa cmds c = Some c' \<Longrightarrow> original_array c' = original_array c"
  by (induction cmds arbitrary: c) (auto split: bind_splits dest: exec_original)

lemma exec_cursor:
  assumes "exec sa cmd c = Some c'"
    and "0 \<le> current_step c" and "current_step c \<le> int (length (step_seq c))"
  shows "0 \<le> current_step c' \<and> current_step c' \<le> int (length (step_seq c'))"
proof (cases cmd)
  case Start
  show ?thesis
  proof (cases "is_sorting c")
    case True
    with assms Start show ?thesis by (simp add: start_sorting_def)
  next
    case False
    with assms(1) Start obtain c1 where
      c1: "(if step_seq c = [] then generate_steps sa c else Some c) = Some c1"
      and c': "c' = animate_sorting (c1\<lparr>is_sorting := True, is_playing := True\<rparr>)"
      by (auto simp: start_sorting_def split: bind_splits)
    have "0 \<le> current_step c1 \<and> current_step c1 \<le> int (length (step_seq c1))"
      using c1 assms(2,3) by (auto split: if_splits dest: generate_steps_fields)
    then show ?thesis unfolding c'
      using animate_sorting_cursor[of "c1\<lparr>is_sorting := True, is_playing := True\<rparr>"] by simp
  qed
next
  case FastStart
  show ?thesis
  proof (cases "is_sorting c \<or> working_array c = []")
    case True
    with assms FastStart show ?thesis by (auto simp: fast_sort_def split: if_splits)
  next
    case False
    with assms(1) FastStart obtain c1 where
      c1: "(if step_seq c = [] then generate_steps sa c else Some c) = Some c1"
      and c': "c' = animate_sorting (c1\<lparr>is_sorting := True, is_playing := True,
                       original_speed := Some (animation_speed c1), animation_speed := 50\<rparr>)"
      by (auto simp: fast_sort_def Let_def split: bind_splits)
    have "0 \<le> current_step c1 \<and> current_step c1 \<le> int (length (step_seq c1))"
      using c1 assms(2,3) by (auto split: if_splits dest: generate_steps_fields)
    then show ?thesis unfolding c'
      using animate_sorting_cursor[of "c1\<lparr>is_sorting := True, is_playing := True,
                       original_speed := Some (animation_speed c1), animation_speed := 50\<rparr>"]
      by simp
  qed
next
  case Pause
  with assms show ?thesis by (auto simp: pause_sorting_def)
next
  case Reset
  with assms show ?thesis by (auto simp: reset_sorting_def)
next
  case StepForward
  with assms(1) obtain c1 where
    c1: "(if step_seq c = [] then generate_steps sa c else Some c) = Some c1"
    and c': "c' = (if current_step c1 < int (length (step_seq c1)) - 1
                   then show_current_step (c1\<lparr>current_step := current_step c1 + 1\<rparr>) else c1)"
    by (auto simp: step_forward_def split: bind_splits if_splits)
  have "0 \<le> current_step c1 \<and> current_step c1 \<le> int (length (step_seq c1))"
    using c1 assms(2,3) by (auto split: if_splits dest: generate_steps_fields)
  then show ?thesis unfolding c' by simp
next
  case StepBackward
  with assms show ?thesis by (auto simp: step_backward_def)
next
  case Tick
  with assms animate_sorting_cursor[of c] show ?thesis by auto
qed

lemma run_cursor:
  "run sa cmds c = Some c' \<Longrightarrow> 0 \<le> current_step c \<Longrightarrow>
   current_step c \<le> int (length (step_seq c)) \<Longrightarrow>
   0 \<le> current_step c' \<and> current_step c' \<le> int (length (step_seq c'))"
proof (induction cmds arbitrary: c)
  case Nil
  then show ?case by simp
next
  case (Cons cmd cmds)
  then obtain c1 where e: "exec sa cmd c = Some c1" and r: "run sa cmds c1 = Some c'"
    by (auto split: bind_splits)
  from exec_cursor[OF e Cons.prems(2,3)] Cons.IH[OF r] show ?case by simp
qed

lemma run_append:
  "run sa (xs @ ys) c = do { c1 \<leftarrow> run sa xs c; run sa ys c1 }"
  by (induction xs arbitrary: c) (auto split: bind_splits)

section \<open>The run of an engine\<close>

text \<open>
  Each engine returns on every array, and its Step Sequence starts with the initial-state
  step and ends with the completion step, which holds the sorted array.
\<close>

lemma qs_steps_correct:
  "\<exists>s. qs_steps xs = Some s \<and> 2 \<le> length s \<and> array (hd s) = xs
       \<and> sorted (array (last s)) \<and> mset (array (last s)) = mset xs"
proof -
  from qs_sort_algorithm_correct[of xs] obtain arr' s where
    "qs_sort_algorithm xs [] = Some (arr', s)" "2 \<le> length s" "array (hd s) = xs"
    "array (last s) = arr'" "sorted arr'" "mset arr' = mset xs"
    by fastforce
  then show ?thesis by (simp add: qs_steps_def)
qed

lemma ms_steps_key_correct:
  "\<exists>s. ms_steps_key key str xs = Some s \<and> 2 \<le> length s \<and> array (hd s) = xs
       \<and> sorted (map key (array (last s))) \<and> mset (array (last s)) = mset xs
       \<and> (\<forall>c. filter (\<lambda>x. key x = c) (array (last s)) = filter (\<lambda>x. key x = c) xs)"
proof -
  from ms_sort_algorithm_correct[of key str xs] obtain arr' s where
    "ms_sort_algorithm key str xs [] = Some (arr', s)" "2 \<le> length s" "array (hd s) = xs"
    "array (last s) = arr'" "sorted (map key arr')" "mset arr' = mset xs"
    "\<forall>c. filter (\<lambda>x. key x = c) arr' = filter (\<lambda>x. key x = c) xs"
    by fastforce
  then show ?thesis by (simp add: ms_steps_key_def)
qed

lemma ms_steps_correct:
  "\<exists>s. ms_steps xs = Some s \<and> 2 \<le> length s \<and> array (hd s) = xs
       \<and> sorted (array (last s)) \<and> mset (array (last s)) = mset xs"
  using ms_steps_key_correct[of "\<lambda>x. x" str_int xs] by (auto simp: ms_steps_def)

lemma ss_steps_correct:
  "\<exists>s. ss_steps xs = Some s \<and> 2 \<le> length s \<and> array (hd s) = xs
       \<and> sorted (array (last s)) \<and> mset (array (last s)) = mset xs"
proof -
  from ss_sort_algorithm_correct[of xs] obtain arr' s where
    "ss_sort_algorithm xs [] = Some (arr', s)" "2 \<le> length s" "array (hd s) = xs"
    "array (last s) = arr'" "sorted arr'" "mset arr' = mset xs"
    by fastforce
  then show ?thesis by (simp add: ss_steps_def)
qed

section \<open>Runs of the controller\<close>

lemma qs_total: "\<exists>r. qs_sort_algorithm xs [] = Some r"
  using qs_sort_algorithm_correct[of xs] by blast

lemma ms_total: "\<exists>r. ms_sort_algorithm_int xs [] = Some r"
  using ms_sort_algorithm_correct[of "\<lambda>x. x" str_int xs] by (auto simp: ms_sort_algorithm_int_def)

lemma ss_total: "\<exists>r. ss_sort_algorithm xs [] = Some r"
  using ss_sort_algorithm_correct[of xs] by blast

lemma run_from_array_cursor:
  assumes "\<And>xs. \<exists>r. sa xs [] = Some r"
  shows "\<exists>c'. run sa cmds (set_manual_array c xs) = Some c'
            \<and> 0 \<le> current_step c' \<and> current_step c' \<le> int (length (step_seq c'))"
proof -
  from run_total[of sa cmds "set_manual_array c xs", OF assms] obtain c' where
    r: "run sa cmds (set_manual_array c xs) = Some c'" by blast
  from run_cursor[OF r] have "0 \<le> current_step c' \<and> current_step c' \<le> int (length (step_seq c'))"
    by (simp add: set_manual_array_def)
  with r show ?thesis by blast
qed

lemma run_then_reset:
  assumes "\<And>xs. \<exists>r. sa xs [] = Some r"
  shows "\<exists>c'. run sa (cmds @ [Reset]) (set_manual_array c xs) = Some c'
            \<and> current_step c' = 0 \<and> step_seq c' = [] \<and> working_array c' = xs
            \<and> original_array c' = xs"
proof -
  from run_total[of sa cmds "set_manual_array c xs", OF assms] obtain c1 where
    r: "run sa cmds (set_manual_array c xs) = Some c1" by blast
  from run_original[OF r] have o: "original_array c1 = xs" by (simp add: set_manual_array_def)
  have "run sa (cmds @ [Reset]) (set_manual_array c xs) = Some (reset_sorting c1)"
    by (simp add: run_append r)
  moreover have "current_step (reset_sorting c1) = 0" "step_seq (reset_sorting c1) = []"
    "working_array (reset_sorting c1) = xs" "original_array (reset_sorting c1) = xs"
    using o by (simp_all add: reset_sorting_def)
  ultimately show ?thesis by blast
qed

lemma step_forward_fresh:
  assumes "step_seq c = []" and "current_step c = 0" and "working_array c \<noteq> []"
    and "sa (working_array c) [] = Some (arr', s)" and "2 \<le> length s"
  shows "\<exists>c'. step_forward sa c = Some c' \<and> step_seq c' = s \<and> current_step c' = 1
            \<and> working_array c' = array (s ! 1)"
proof -
  have "s \<noteq> []" using assms(5) by auto
  then show ?thesis using assms
    by (simp add: step_forward_def generate_steps_def show_current_step_def)
qed

lemma step_backward_fresh:
  "current_step c = 0 \<Longrightarrow> step_backward c = c"
  by (simp add: step_backward_def)

lemma step_forward_cursor:
  assumes "step_seq c \<noteq> []"
  shows "\<exists>c'. step_forward sa c = Some c' \<and> step_seq c' = step_seq c
            \<and> current_step c' = (if current_step c < int (length (step_seq c)) - 1
                                 then current_step c + 1 else current_step c)"
  using assms by (simp add: step_forward_def)

lemma step_backward_cursor:
  "step_seq (step_backward c) = step_seq c
   \<and> current_step (step_backward c) = (if current_step c > 0 then current_step c - 1
                                        else current_step c)"
  by (simp add: step_backward_def)

lemma animate_sorting_cursor_exact:
  "current_step (animate_sorting c)
     = (if is_playing c \<and> current_step c < int (length (step_seq c))
        then current_step c + 1 else current_step c)"
  by (simp add: animate_sorting_def Let_def)

section \<open>Verified properties\<close>

subsection \<open>Properties of the three engines\<close>

text \<open>
  C1. For every input array and each of the three engines, the run on a copy of the
  array returns a non-empty Step Sequence, and the array snapshot of its last Step Record
  is in non-decreasing order.
\<close>

theorem final_snapshot_sorted:
  "(\<exists>s. qs_steps xs = Some s \<and> s \<noteq> [] \<and> sorted (array (last s)))
   \<and> (\<exists>s. ms_steps xs = Some s \<and> s \<noteq> [] \<and> sorted (array (last s)))
   \<and> (\<exists>s. ss_steps xs = Some s \<and> s \<noteq> [] \<and> sorted (array (last s)))"
  using qs_steps_correct[of xs] ms_steps_correct[of xs] ss_steps_correct[of xs] by fastforce

text \<open>
  C2. For every input array and each of the three engines, the array snapshot of the
  last Step Record has the same multiset of values as the input array.
\<close>

theorem final_snapshot_permutation:
  "(\<exists>s. qs_steps xs = Some s \<and> mset (array (last s)) = mset xs)
   \<and> (\<exists>s. ms_steps xs = Some s \<and> mset (array (last s)) = mset xs)
   \<and> (\<exists>s. ss_steps xs = Some s \<and> mset (array (last s)) = mset xs)"
  using qs_steps_correct[of xs] ms_steps_correct[of xs] ss_steps_correct[of xs] by fastforce

text \<open>
  C3. Merge sort is stable. With elements compared through \<open>key\<close>, the final snapshot
  is sorted by key and, for every key value, the elements with that key stand in the
  final snapshot in the order they have in the input: \<open>merge\<close> places the left candidate
  first whenever its key is less than or equal to the right one.
\<close>

theorem merge_sort_stable:
  "\<exists>s. ms_steps_key key str xs = Some s
       \<and> sorted (map key (array (last s)))
       \<and> (\<forall>c. filter (\<lambda>x. key x = c) (array (last s)) = filter (\<lambda>x. key x = c) xs)"
  using ms_steps_key_correct[of key str xs] by fastforce


subsection \<open>Properties of the quicksort engine\<close>

text \<open>
  C8. Take any subrange \<open>[low, high]\<close> inside the array, \<open>seg\<close> being its elements. The
  scan of \<open>partition\<close> ends with the boundary \<open>i\<close>, which is \<open>low - 1\<close> plus the number of
  elements before the pivot that are less than or equal to it. \<open>partition\<close> returns
  \<open>i + 1\<close>, and the step it records last is the "partition completed" step: its pivot
  index is \<open>i + 1\<close>, its left range is \<open>(low, i)\<close> when \<open>i \<ge> low\<close> and absent otherwise, and
  its right range is \<open>(i + 2, high)\<close> when \<open>i + 2 \<le> high\<close> and absent otherwise.
\<close>

theorem partition_completed_ranges:
  assumes "seg \<noteq> []" and "low = int (length pre)"
    and "high = int (length pre) + int (length seg) - 1"
  shows "\<exists>i arr' steps'.
           i = low - 1 + int (length (filter (\<lambda>x. x \<le> last seg) (butlast seg)))
         \<and> (\<forall>st. \<exists>arr1 st'.
                partition_loop (pre @ seg @ post) st (last seg) high (low - 1) low high
                  = Some (arr1, st', i))
         \<and> qs_partition (pre @ seg @ post) steps low high = Some (arr', steps', i + 1)
         \<and> pivot_idx (last steps') = i + 1
         \<and> description (last steps') = ''Partition completed. Pivot position: '' @ str_int (i + 1)
         \<and> array (last steps') = arr'
         \<and> left_part (last steps') = (if i \<ge> low then Some (low, i) else None)
         \<and> right_part (last steps') = (if i + 2 \<le> high then Some (i + 2, high) else None)"
proof -
  let ?i = "low - 1 + int (length (filter (\<lambda>x. x \<le> last seg) (butlast seg)))"
  have scan: "\<forall>st. \<exists>arr1 st'.
                partition_loop (pre @ seg @ post) st (last seg) high (low - 1) low high
                  = Some (arr1, st', ?i)"
    using partition_scan_boundary[OF assms] by blast
  from qs_partition_boundary[OF assms, of post steps] obtain arr' ext where
    p: "qs_partition (pre @ seg @ post) steps low high = Some (arr', steps @ ext, ?i + 1)"
    by blast
  from qs_partition_last_step[OF p] have
    "pivot_idx (last (steps @ ext)) = ?i + 1
     \<and> description (last (steps @ ext)) = ''Partition completed. Pivot position: '' @ str_int (?i + 1)
     \<and> array (last (steps @ ext)) = arr'
     \<and> left_part (last (steps @ ext)) = (if ?i \<ge> low then Some (low, ?i) else None)
     \<and> right_part (last (steps @ ext)) = (if ?i + 2 \<le> high then Some (?i + 2, high) else None)"
    by simp
  with scan p show ?thesis by blast
qed

text \<open>
  The four cases at concrete inputs: the pivot is the minimum (no left range), lies in
  the middle (both ranges), is the maximum (no right range), and a subrange inside a
  longer array.
\<close>

theorem partition_completed_ranges_witness:
  "(\<exists>arr' steps'. qs_partition [5, 2, 8, 1, 0] [] 0 4 = Some (arr', steps', 0)
       \<and> left_part (last steps') = None \<and> right_part (last steps') = Some (1, 4))
   \<and> (\<exists>arr' steps'. qs_partition [5, 2, 8, 1, 4] [] 0 4 = Some (arr', steps', 2)
       \<and> left_part (last steps') = Some (0, 1) \<and> right_part (last steps') = Some (3, 4))
   \<and> (\<exists>arr' steps'. qs_partition [5, 2, 8, 1, 9] [] 0 4 = Some (arr', steps', 4)
       \<and> left_part (last steps') = Some (0, 3) \<and> right_part (last steps') = None)
   \<and> (\<exists>arr' steps'. qs_partition [7, 3, 1, 2, 9] [] 1 3 = Some (arr', steps', 2)
       \<and> left_part (last steps') = Some (1, 1) \<and> right_part (last steps') = Some (3, 3))"
  using partition_completed_ranges[of "[5, 2, 8, 1, 0]" 0 "[]" 4 "[]" "[]"]
        partition_completed_ranges[of "[5, 2, 8, 1, 4]" 0 "[]" 4 "[]" "[]"]
        partition_completed_ranges[of "[5, 2, 8, 1, 9]" 0 "[]" 4 "[]" "[]"]
        partition_completed_ranges[of "[3, 1, 2]" 1 "[7]" 3 "[9]" "[]"]
  by simp blast

text \<open>
  C7, as stated, fails: on \<open>[5, 2, 8, 1, 9]\<close> the first Step Record is the initial-state
  step of \<open>sort_algorithm\<close>, whose description names no pivot.
\<close>

theorem qs_first_description_counterexample:
  "map_option (description \<circ> hd) (qs_steps [5, 2, 8, 1, 9])
     = Some ''Initial state - Quick Sort algorithm starting''
   \<and> map_option (description \<circ> hd) (qs_steps [5, 2, 8, 1, 9])
     \<noteq> Some ''Pivot selected: 9 (index: 4)''"
  by code_simp

text \<open>
  C7, amended: on \<open>[5, 2, 8, 1, 9]\<close> the final snapshot is \<open>[1, 2, 5, 8, 9]\<close>, and the
  pivot step is the third Step Record, after the initial-state step and the step that
  names the range \<open>[0, 4]\<close>: its description names pivot value 9 at index 4.
\<close>

theorem qs_scenario:
  "map_option (array \<circ> last) (qs_steps [5, 2, 8, 1, 9]) = Some [1, 2, 5, 8, 9]
   \<and> map_option (take 3 \<circ> map description) (qs_steps [5, 2, 8, 1, 9])
     = Some [''Initial state - Quick Sort algorithm starting'',
             ''Quick Sort - Range: [0, 4]'',
             ''Pivot selected: 9 (index: 4)'']
   \<and> map_option (take 3 \<circ> map pivot_idx) (qs_steps [5, 2, 8, 1, 9]) = Some [-1, -1, 4]"
  by code_simp

subsection \<open>Properties of the merge sort scenario\<close>

text \<open>
  C6, as stated, fails: in the run of merge sort on \<open>[5, 2, 8, 1, 9]\<close> no Step Record
  tags the left range \<open>(0, 1)\<close> together with the right range \<open>(2, 4)\<close>.
\<close>

theorem ms_dividing_ranges_counterexample:
  "map_option (length \<circ> filter ((=) (Some (0, 1), Some (2, 4))) \<circ> map ms_ranges)
     (ms_steps [5, 2, 8, 1, 9]) = Some 0"
  by code_simp

text \<open>
  C6, amended: in that run the dividing steps tag, in order, \<open>(0, 2)\<close> and \<open>(3, 4)\<close>,
  \<open>(0, 1)\<close> and \<open>(2, 2)\<close>, \<open>(0, 0)\<close> and \<open>(1, 1)\<close>, \<open>(3, 3)\<close> and \<open>(4, 4)\<close>. The first one
  is the step for \<open>left = 0\<close>, \<open>right = 4\<close>, \<open>mid = 2\<close>: the left half-range is
  \<open>(left, mid)\<close> and the right one \<open>(mid + 1, right)\<close>.
\<close>

theorem ms_dividing_scenario:
  "map_option (map ms_ranges \<circ> filter ms_is_dividing) (ms_steps [5, 2, 8, 1, 9])
     = Some [(Some (0, 2), Some (3, 4)), (Some (0, 1), Some (2, 2)),
             (Some (0, 0), Some (1, 1)), (Some (3, 3), Some (4, 4))]
   \<and> map_option (map description \<circ> take 1 \<circ> filter ms_is_dividing) (ms_steps [5, 2, 8, 1, 9])
     = Some [''Dividing array: Left[0:2], Right[3:4]'']"
  by code_simp

subsection \<open>Properties of playback\<close>

text \<open>
  C4, as stated, fails: with quicksort on \<open>[3, 1, 2]\<close> the Step Sequence has 10 steps,
  and after \<open>start\<close> and nine more ticks the cursor is 10, the length of the sequence:
  the tick that shows the last step still advances the cursor.
\<close>

theorem cursor_reaches_length_counterexample:
  "map_option current_step
     (run qs_sort_algorithm (Start # replicate 9 Tick) (set_manual_array new_controller [3, 1, 2]))
     = Some 10
   \<and> map_option (length \<circ> step_seq)
     (run qs_sort_algorithm (Start # replicate 9 Tick) (set_manual_array new_controller [3, 1, 2]))
     = Some 10"
  by code_simp

text \<open>
  C4, amended. From a freshly set array, after every sequence of start, fast-start,
  pause, reset, step-forward, step-backward and auto-advance ticks, no command raises and
  the cursor satisfies \<open>0 \<le> cursor \<le> N\<close>, where \<open>N\<close> is the length of the Step Sequence
  at that moment. On a generated sequence \<open>step_forward\<close> moves the cursor by one exactly
  when \<open>cursor < N - 1\<close>, and \<open>step_backward\<close> exactly when \<open>cursor > 0\<close>: from a cursor
  below \<open>N\<close> they leave it below \<open>N\<close>. A tick of \<open>animate_sorting\<close> moves the cursor by
  one exactly when playing and \<open>cursor < N\<close>: the tick at \<open>N - 1\<close>, which shows the last
  step, leaves the cursor at \<open>N\<close>.
\<close>

theorem cursor_within_sequence:
  "(\<exists>c'. run qs_sort_algorithm cmds (set_manual_array cq xs) = Some c'
         \<and> 0 \<le> current_step c' \<and> current_step c' \<le> int (length (step_seq c')))
   \<and> (\<exists>c'. run ms_sort_algorithm_int cmds (set_manual_array cm xs) = Some c'
         \<and> 0 \<le> current_step c' \<and> current_step c' \<le> int (length (step_seq c')))
   \<and> (\<exists>c'. run ss_sort_algorithm cmds (set_manual_array cs xs) = Some c'
         \<and> 0 \<le> current_step c' \<and> current_step c' \<le> int (length (step_seq c')))
   \<and> (step_seq c \<noteq> [] \<longrightarrow>
        (\<exists>c'. step_forward sa c = Some c' \<and> step_seq c' = step_seq c
           \<and> current_step c' = (if current_step c < int (length (step_seq c)) - 1
                                then current_step c + 1 else current_step c)
           \<and> (current_step c < int (length (step_seq c))
                \<longrightarrow> current_step c' < int (length (step_seq c')))))
   \<and> step_seq (step_backward c) = step_seq c
   \<and> current_step (step_backward c)
        = (if current_step c > 0 then current_step c - 1 else current_step c)
   \<and> (step_seq c \<noteq> [] \<longrightarrow> current_step c \<le> int (length (step_seq c))
        \<longrightarrow> current_step (step_backward c) < int (length (step_seq (step_backward c))))
   \<and> step_seq (animate_sorting c) = step_seq c
   \<and> current_step (animate_sorting c)
        = (if is_playing c \<and> current_step c < int (length (step_seq c))
           then current_step c + 1 else current_step c)
   \<and> (is_playing c \<longrightarrow> current_step c = int (length (step_seq c)) - 1
        \<longrightarrow> current_step (animate_sorting c) = int (length (step_seq (animate_sorting c))))"
proof -
  have fwd: "step_seq c \<noteq> [] \<longrightarrow>
        (\<exists>c'. step_forward sa c = Some c' \<and> step_seq c' = step_seq c
           \<and> current_step c' = (if current_step c < int (length (step_seq c)) - 1
                                then current_step c + 1 else current_step c)
           \<and> (current_step c < int (length (step_seq c))
                \<longrightarrow> current_step c' < int (length (step_seq c'))))"
  proof
    assume ne: "step_seq c \<noteq> []"
    from step_forward_cursor[OF ne, of sa] obtain c' where
      c': "step_forward sa c = Some c'" "step_seq c' = step_seq c"
        "current_step c' = (if current_step c < int (length (step_seq c)) - 1
                            then current_step c + 1 else current_step c)" by blast
    then have "current_step c < int (length (step_seq c))
                 \<longrightarrow> current_step c' < int (length (step_seq c'))" by simp
    with c' show "\<exists>c'. step_forward sa c = Some c' \<and> step_seq c' = step_seq c
           \<and> current_step c' = (if current_step c < int (length (step_seq c)) - 1
                                then current_step c + 1 else current_step c)
           \<and> (current_step c < int (length (step_seq c))
                \<longrightarrow> current_step c' < int (length (step_seq c')))" by blast
  qed
  have bwd: "step_seq c \<noteq> [] \<longrightarrow> current_step c \<le> int (length (step_seq c))
        \<longrightarrow> current_step (step_backward c) < int (length (step_seq (step_backward c)))"
    using step_backward_cursor[of c] by (cases "step_seq c") auto
  have tick: "is_playing c \<longrightarrow> current_step c = int (length (step_seq c)) - 1
        \<longrightarrow> current_step (animate_sorting c) = int (length (step_seq (animate_sorting c)))"
    by (simp add: animate_sorting_cursor_exact)
  show ?thesis
    using run_from_array_cursor[of qs_sort_algorithm cmds cq xs, OF qs_total]
          run_from_array_cursor[of ms_sort_algorithm_int cmds cm xs, OF ms_total]
          run_from_array_cursor[of ss_sort_algorithm cmds cs xs, OF ss_total]
          fwd bwd tick step_backward_cursor[of c] animate_sorting_cursor_exact[of c]
    by simp
qed

text \<open>
  The state after \<open>start\<close> and eight ticks of quicksort on \<open>[3, 1, 2]\<close>: the cursor is 9
  of 10 steps, \<open>step_forward\<close> leaves it at 9, \<open>step_backward\<close> moves it to 8 and the next
  tick moves it to 10.
\<close>

theorem cursor_within_sequence_witness:
  "\<exists>c. run qs_sort_algorithm (Start # replicate 8 Tick) (set_manual_array new_controller [3, 1, 2])
          = Some c
      \<and> current_step c = 9 \<and> length (step_seq c) = 10 \<and> is_playing c
      \<and> (\<exists>c'. step_forward qs_sort_algorithm c = Some c' \<and> current_step c' = 9)
      \<and> current_step (step_backward c) = 8
      \<and> current_step (animate_sorting c) = 10"
proof -
  have "map_option (\<lambda>c. (current_step c, length (step_seq c), is_playing c))
          (run qs_sort_algorithm (Start # replicate 8 Tick)
             (set_manual_array new_controller [3, 1, 2]))
        = Some (9, 10, True)"
    by code_simp
  then obtain c where
    c: "run qs_sort_algorithm (Start # replicate 8 Tick) (set_manual_array new_controller [3, 1, 2])
          = Some c"
      "current_step c = 9" "length (step_seq c) = 10" "is_playing c"
    by auto
  then have ne: "step_seq c \<noteq> []" by auto
  from cursor_within_sequence[where c = c and sa = qs_sort_algorithm
         and cmds = "Start # replicate 8 Tick" and xs = "[3, 1, 2]"
         and cq = new_controller and cm = new_controller and cs = new_controller] c ne
  show ?thesis by auto
qed

text \<open>
  C5. From a freshly captured array \<open>xs\<close>, after any finite sequence of navigation
  commands, \<open>reset\<close> leaves the cursor at 0, the Step Sequence empty and the working array
  equal to \<open>xs\<close>.
\<close>

theorem reset_restores_original:
  "(\<exists>c'. run qs_sort_algorithm (cmds @ [Reset]) (set_manual_array cq xs) = Some c'
         \<and> current_step c' = 0 \<and> step_seq c' = [] \<and> working_array c' = xs)
   \<and> (\<exists>c'. run ms_sort_algorithm_int (cmds @ [Reset]) (set_manual_array cm xs) = Some c'
         \<and> current_step c' = 0 \<and> step_seq c' = [] \<and> working_array c' = xs)
   \<and> (\<exists>c'. run ss_sort_algorithm (cmds @ [Reset]) (set_manual_array cs xs) = Some c'
         \<and> current_step c' = 0 \<and> step_seq c' = [] \<and> working_array c' = xs)"
  using run_then_reset[of qs_sort_algorithm cmds cq xs, OF qs_total]
        run_then_reset[of ms_sort_algorithm_int cmds cm xs, OF ms_total]
        run_then_reset[of ss_sort_algorithm cmds cs xs, OF ss_total]
  by blast

text \<open>
  C9, as stated, fails: \<open>step_backward\<close> on a fresh array generates nothing, the Step
  Sequence stays empty, while the run of the engine on that array has 10 steps.
\<close>

theorem step_backward_no_generation_counterexample:
  "step_seq (step_backward (set_manual_array (new_controller :: qs_controller) [3, 1, 2])) = []
   \<and> map_option length (qs_steps [3, 1, 2]) = Some 10"
  by code_simp

text \<open>
  C9, amended: in a state with no steps generated, the cursor at 0 and a non-empty array,
  \<open>step_forward\<close> does not raise: it generates the full Step Sequence of the engine and
  moves the cursor to step 1, whose snapshot becomes the array. \<open>step_backward\<close> in that
  state changes nothing; it generates no steps.
\<close>

theorem lazy_generation:
  assumes "step_seq cq = []" and "current_step cq = 0" and "working_array cq \<noteq> []"
    and "step_seq cm = []" and "current_step cm = 0" and "working_array cm \<noteq> []"
    and "step_seq cs = []" and "current_step cs = 0" and "working_array cs \<noteq> []"
  shows "(\<exists>c' s. step_forward qs_sort_algorithm cq = Some c' \<and> qs_steps (working_array cq) = Some s
            \<and> step_seq c' = s \<and> current_step c' = 1 \<and> working_array c' = array (s ! 1))
       \<and> (\<exists>c' s. step_forward ms_sort_algorithm_int cm = Some c' \<and> ms_steps (working_array cm) = Some s
            \<and> step_seq c' = s \<and> current_step c' = 1 \<and> working_array c' = array (s ! 1))
       \<and> (\<exists>c' s. step_forward ss_sort_algorithm cs = Some c' \<and> ss_steps (working_array cs) = Some s
            \<and> step_seq c' = s \<and> current_step c' = 1 \<and> working_array c' = array (s ! 1))
       \<and> step_backward cq = cq \<and> step_backward cm = cm \<and> step_backward cs = cs"
proof -
  from qs_steps_correct[of "working_array cq"] obtain arr1 s1 where
    q: "qs_sort_algorithm (working_array cq) [] = Some (arr1, s1)" "2 \<le> length s1"
       "qs_steps (working_array cq) = Some s1"
    by (auto simp: qs_steps_def)
  from ms_steps_correct[of "working_array cm"] obtain arr2 s2 where
    m: "ms_sort_algorithm_int (working_array cm) [] = Some (arr2, s2)" "2 \<le> length s2"
       "ms_steps (working_array cm) = Some s2"
    by (auto simp: ms_steps_def ms_steps_key_def ms_sort_algorithm_int_def)
  from ss_steps_correct[of "working_array cs"] obtain arr3 s3 where
    s: "ss_sort_algorithm (working_array cs) [] = Some (arr3, s3)" "2 \<le> length s3"
       "ss_steps (working_array cs) = Some s3"
    by (auto simp: ss_steps_def)
  from step_forward_fresh[where sa = qs_sort_algorithm and c = cq, OF assms(1,2,3) q(1,2)] q(3)
       step_forward_fresh[where sa = ms_sort_algorithm_int and c = cm, OF assms(4,5,6) m(1,2)] m(3)
       step_forward_fresh[where sa = ss_sort_algorithm and c = cs, OF assms(7,8,9) s(1,2)] s(3)
       step_backward_fresh[OF assms(2)] step_backward_fresh[OF assms(5)]
       step_backward_fresh[OF assms(8)]
  show ?thesis by auto
qed

theorem lazy_generation_witness:
  "(\<exists>c' s. step_forward qs_sort_algorithm (set_manual_array new_controller [3, 1, 2]) = Some c'
        \<and> qs_steps [3, 1, 2] = Some s \<and> step_seq c' = s \<and> current_step c' = 1)
   \<and> (\<exists>c' s. step_forward ms_sort_algorithm_int (set_manual_array new_controller [3, 1, 2]) = Some c'
        \<and> ms_steps [3, 1, 2] = Some s \<and> step_seq c' = s \<and> current_step c' = 1)
   \<and> (\<exists>c' s. step_forward ss_sort_algorithm (set_manual_array new_controller [3, 1, 2]) = Some c'
        \<and> ss_steps [3, 1, 2] = Some s \<and> step_seq c' = s \<and> current_step c' = 1)"
  using lazy_generation[of "set_manual_array new_controller [3, 1, 2]"
                           "set_manual_array new_controller [3, 1, 2]"
                           "set_manual_array new_controller [3, 1, 2]"]
  by (simp add: set_manual_array_def new_controller_def) blast

end
